theory Spec2Isabelle
  imports Main "HOL-Library.Word"
begin

unbundle bit_operations_syntax

section \<open>Strings\<close>

text \<open>
  A Go string is a sequence of bytes; it is modelled as \<^typ>\<open>string\<close>. The helpers below
  are the functions of package \<^verbatim>\<open>strings\<close> that \<^verbatim>\<open>main.go\<close> calls. \<^verbatim>\<open>strings.ToLower\<close>
  and \<^verbatim>\<open>strings.TrimSpace\<close> are given on ASCII: a byte outside \<open>A\<close>..\<open>Z\<close> is kept by
  \<open>toLower\<close>, and the white space of \<open>trimSpace\<close> is tab, line feed, vertical tab, form
  feed, carriage return and space.
\<close>

definition isUpper :: "char \<Rightarrow> bool" where
  "isUpper c = (65 \<le> (of_char c :: nat) \<and> (of_char c :: nat) \<le> 90)"

definition lowerChar :: "char \<Rightarrow> char" where
  "lowerChar c = (if isUpper c then char_of ((of_char c :: nat) + 32) else c)"

definition toLower :: "string \<Rightarrow> string" where
  "toLower s = map lowerChar s"



text \<open>\<^verbatim>\<open>strings.Split(s, sep)\<close> for a one-byte separator: one token more than separators.\<close>

fun split :: "char \<Rightarrow> string \<Rightarrow> string list" where
  "split sep [] = [[]]"
| "split sep (c # cs) =
     (if c = sep then [] # split sep cs
      else (case split sep cs of t # ts \<Rightarrow> (c # t) # ts | [] \<Rightarrow> [[c]]))"


section \<open>Extension filter\<close>




section \<open>Paths\<close>

text \<open>
  The functions of package \<^verbatim>\<open>path/filepath\<close> that \<^verbatim>\<open>main.go\<close> calls, as they are on Unix
  (separator \<open>/\<close>, no volume names). \<open>Clean\<close> follows the library's loop: \<open>out\<close> is the
  buffer written so far, \<open>dotdot\<close> the length below which a \<open>..\<close> must not cut.
\<close>

definition isSep :: "char \<Rightarrow> bool" where
  "isSep c = (c = CHR ''/'')"

text \<open>The library's \<^verbatim>\<open>out.w--; for out.w > dotdot && !isSep(out.index(out.w)) { out.w-- }\<close>.\<close>

fun backtrack :: "nat \<Rightarrow> string \<Rightarrow> string" where
  "backtrack dotdot out =
     (let out1 = butlast out in
      if length out1 > dotdot \<and> \<not> isSep (last out) then backtrack dotdot out1 else out1)"

definition atEnd :: "string \<Rightarrow> bool" where
  "atEnd cs = (case cs of [] \<Rightarrow> True | c # _ \<Rightarrow> isSep c)"

function cleanLoop :: "bool \<Rightarrow> string \<Rightarrow> string \<Rightarrow> nat \<Rightarrow> string" where
  "cleanLoop rooted [] out dotdot = out"
| "cleanLoop rooted (c # cs) out dotdot =
     (if isSep c then cleanLoop rooted cs out dotdot
      else if c = CHR ''.'' \<and> atEnd cs then cleanLoop rooted cs out dotdot
      else if c = CHR ''.'' \<and> cs \<noteq> [] \<and> hd cs = CHR ''.'' \<and> atEnd (tl cs) then
        (if length out > dotdot then cleanLoop rooted (tl cs) (backtrack dotdot out) dotdot
         else if \<not> rooted then
           (let out' = (if length out > 0 then out @ ''/'' else out) @ ''..''
            in cleanLoop rooted (tl cs) out' (length out'))
         else cleanLoop rooted (tl cs) out dotdot)
      else
        (let out' = (if rooted \<and> length out \<noteq> 1 \<or> \<not> rooted \<and> length out \<noteq> 0
                     then out @ ''/'' else out)
         in cleanLoop rooted (dropWhile (\<lambda>x. \<not> isSep x) cs)
              (out' @ c # takeWhile (\<lambda>x. \<not> isSep x) cs) dotdot))"
  by pat_completeness auto
termination
  by (relation "measure (\<lambda>(rooted, cs, out, dotdot). length cs)")
     (auto simp: le_imp_less_Suc length_dropWhile_le less_Suc_eq_le)

definition Clean :: "string \<Rightarrow> string" where
  "Clean path =
     (if path = [] then ''.''
      else let rooted = isSep (hd path);
               out = (if rooted then cleanLoop True (tl path) ''/'' 1
                      else cleanLoop False path [] 0)
           in if out = [] then ''.'' else out)"

text \<open>The prefix of a path up to and including its last separator (\<^verbatim>\<open>path[:i+1]\<close> in \<^verbatim>\<open>Dir\<close>).\<close>

definition uptoLastSep :: "string \<Rightarrow> string" where
  "uptoLastSep path = rev (dropWhile (\<lambda>x. \<not> isSep x) (rev path))"

definition Dir :: "string \<Rightarrow> string" where
  "Dir path = Clean (uptoLastSep path)"

definition Base :: "string \<Rightarrow> string" where
  "Base path =
     (if path = [] then ''.''
      else let p1 = rev (dropWhile isSep (rev path));
               p2 = rev (takeWhile (\<lambda>x. \<not> isSep x) (rev p1))
           in if p2 = [] then ''/'' else p2)"

text \<open>\<^verbatim>\<open>Ext\<close> scans from the end; \<open>acc\<close> holds the bytes already passed.\<close>

fun extFrom :: "string \<Rightarrow> string \<Rightarrow> string" where
  "extFrom [] acc = []"
| "extFrom (c # cs) acc =
     (if isSep c then [] else if c = CHR ''.'' then c # acc else extFrom cs (c # acc))"

definition Ext :: "string \<Rightarrow> string" where
  "Ext path = extFrom (rev path) []"

text \<open>\<^verbatim>\<open>Join\<close> of two elements.\<close>

definition Join :: "string \<Rightarrow> string \<Rightarrow> string" where
  "Join a b = (if a \<noteq> [] then Clean (a @ ''/'' @ b) else if b \<noteq> [] then Clean b else [])"



section \<open>Content hasher\<close>

text \<open>
  \<^verbatim>\<open>hashFile\<close> feeds the file to \<^verbatim>\<open>sha256.New()\<close> and prints the sum with \<^verbatim>\<open>%x\<close>. The digest
  is SHA-256 as the standard defines it: 32-bit words, eight of them as the state, blocks of
  64 bytes. \<open>K256\<close> is the table \<^verbatim>\<open>_K\<close> of the library, its 64 round constants, in decimal.
\<close>

type_synonym byte = "8 word"
type_synonym word32 = "32 word"
type_synonym int64 = "64 word"

definition K256 :: "word32 list" where
  "K256 =
     [
      1116352408, 1899447441, 3049323471, 3921009573, 961987163, 1508970993,
      2453635748, 2870763221, 3624381080, 310598401, 607225278, 1426881987,
      1925078388, 2162078206, 2614888103, 3248222580, 3835390401, 4022224774,
      264347078, 604807628, 770255983, 1249150122, 1555081692, 1996064986,
      2554220882, 2821834349, 2952996808, 3210313671, 3336571891, 3584528711,
      113926993, 338241895, 666307205, 773529912, 1294757372, 1396182291,
      1695183700, 1986661051, 2177026350, 2456956037, 2730485921, 2820302411,
      3259730800, 3345764771, 3516065817, 3600352804, 4094571909, 275423344,
      430227734, 506948616, 659060556, 883997877, 958139571, 1322822218,
      1537002063, 1747873779, 1955562222, 2024104815, 2227730452, 2361852424,
      2428436474, 2756734187, 3204031479, 3329325298]"

type_synonym hstate = "word32 \<times> word32 \<times> word32 \<times> word32 \<times> word32 \<times> word32 \<times> word32 \<times> word32"

definition H256 :: hstate where
  "H256 = (0x6a09e667, 0xbb67ae85, 0x3c6ef372, 0xa54ff53a,
           0x510e527f, 0x9b05688c, 0x1f83d9ab, 0x5be0cd19)"

definition Ch :: "word32 \<Rightarrow> word32 \<Rightarrow> word32 \<Rightarrow> word32" where
  "Ch x y z = (x AND y) XOR (NOT x AND z)"

definition Maj :: "word32 \<Rightarrow> word32 \<Rightarrow> word32 \<Rightarrow> word32" where
  "Maj x y z = (x AND y) XOR (x AND z) XOR (y AND z)"

definition bsig0 :: "word32 \<Rightarrow> word32" where
  "bsig0 x = word_rotr 2 x XOR word_rotr 13 x XOR word_rotr 22 x"

definition bsig1 :: "word32 \<Rightarrow> word32" where
  "bsig1 x = word_rotr 6 x XOR word_rotr 11 x XOR word_rotr 25 x"

definition ssig0 :: "word32 \<Rightarrow> word32" where
  "ssig0 x = word_rotr 7 x XOR word_rotr 18 x XOR drop_bit 3 x"

definition ssig1 :: "word32 \<Rightarrow> word32" where
  "ssig1 x = word_rotr 17 x XOR word_rotr 19 x XOR drop_bit 10 x"

text \<open>Padding: the byte \<open>0x80\<close>, zeros up to 56 modulo 64, the length in bits on 8 bytes.\<close>

definition be64 :: "int64 \<Rightarrow> byte list" where
  "be64 w = map (\<lambda>i. ucast (drop_bit (8 * (7 - i)) w)) [0..<8]"

definition be32 :: "word32 \<Rightarrow> byte list" where
  "be32 w = map (\<lambda>i. ucast (drop_bit (8 * (3 - i)) w)) [0..<4]"

definition pad :: "byte list \<Rightarrow> byte list" where
  "pad bs =
     (let n = length bs; z = (119 - n mod 64) mod 64
      in bs @ [0x80] @ replicate z 0 @ be64 (of_nat n * 8))"

definition word_of_bytes :: "byte list \<Rightarrow> word32" where
  "word_of_bytes bs = foldl (\<lambda>w b. push_bit 8 w OR ucast b) 0 bs"

fun words_of :: "nat \<Rightarrow> byte list \<Rightarrow> word32 list" where
  "words_of 0 bs = []"
| "words_of (Suc n) bs = word_of_bytes (take 4 bs) # words_of n (drop 4 bs)"

fun schedule :: "nat \<Rightarrow> word32 list \<Rightarrow> word32 list" where
  "schedule 0 ws = ws"
| "schedule (Suc n) ws =
     (let i = length ws
      in schedule n (ws @ [ssig1 (ws ! (i - 2)) + ws ! (i - 7) + ssig0 (ws ! (i - 15))
                           + ws ! (i - 16)]))"

fun round256 :: "word32 \<times> word32 \<Rightarrow> hstate \<Rightarrow> hstate" where
  "round256 (k, w) (a, b, c, d, e, f, g, h) =
     (let t1 = h + bsig1 e + Ch e f g + k + w; t2 = bsig0 a + Maj a b c
      in (t1 + t2, a, b, c, d + t1, e, f, g))"

fun addState :: "hstate \<Rightarrow> hstate \<Rightarrow> hstate" where
  "addState (a, b, c, d, e, f, g, h) (a', b', c', d', e', f', g', h') =
     (a + a', b + b', c + c', d + d', e + e', f + f', g + g', h + h')"

definition compress :: "byte list \<Rightarrow> hstate \<Rightarrow> hstate" where
  "compress blk hs = addState hs (fold round256 (zip K256 (schedule 48 (words_of 16 blk))) hs)"

fun blocks :: "nat \<Rightarrow> byte list \<Rightarrow> byte list list" where
  "blocks 0 bs = []"
| "blocks (Suc n) bs = take 64 bs # blocks n (drop 64 bs)"

fun stateBytes :: "hstate \<Rightarrow> byte list" where
  "stateBytes (a, b, c, d, e, f, g, h) = concat (map be32 [a, b, c, d, e, f, g, h])"

definition sha256sum :: "byte list \<Rightarrow> byte list" where
  "sha256sum bs =
     (let p = pad bs in stateBytes (fold compress (blocks (length p div 64) p) H256))"

text \<open>The verb \<^verbatim>\<open>%x\<close> on a byte slice: two lowercase hexadecimal digits a byte.\<close>

definition hexDigit :: "nat \<Rightarrow> char" where
  "hexDigit n = (if n < 10 then char_of (48 + n) else char_of (87 + n))"

definition hexByte :: "byte \<Rightarrow> string" where
  "hexByte b = [hexDigit (unat b div 16), hexDigit (unat b mod 16)]"

definition sprintf_x :: "byte list \<Rightarrow> string" where
  "sprintf_x bs = concat (map hexByte bs)"

text \<open>
  The file at the path given to \<^verbatim>\<open>hashFile\<close>: \<^verbatim>\<open>os.Open\<close> fails (\<open>None\<close>), or it opens and
  the reads of \<^verbatim>\<open>io.Copy\<close> deliver bytes up to the end of the file (\<open>ReadAll\<close>) or deliver
  some bytes and then fail (\<open>ReadFails\<close>). \<^verbatim>\<open>io.Copy\<close> writes every byte it has read to the
  hash before it returns the read error, which \<^verbatim>\<open>hashFile\<close> discards.
\<close>

datatype content = ReadAll "byte list" | ReadFails "byte list"

fun copied :: "content \<Rightarrow> byte list" where
  "copied (ReadAll bs) = bs"
| "copied (ReadFails bs) = bs"

definition hashFile :: "content option \<Rightarrow> string" where
  "hashFile f = (case f of None \<Rightarrow> [] | Some c \<Rightarrow> sprintf_x (sha256sum (copied c)))"



section \<open>MIME classifier\<close>

text \<open>
  \<^verbatim>\<open>mime.TypeByExtension\<close> reads the tables of the system the program runs on; it is the
  parameter \<open>typeByExtension\<close>.
\<close>

definition detectMIME :: "(string \<Rightarrow> string) \<Rightarrow> string \<Rightarrow> string" where
  "detectMIME typeByExtension ext =
     (if ext = ''.msg'' then ''application/vnd.ms-outlook''
      else let mt = typeByExtension ext in
           if mt \<noteq> [] then mt else ''application/octet-stream'')"

section \<open>The file system and the walk\<close>

text \<open>
  What the walk reads of the file system. \<open>FileInfo\<close> is what \<^verbatim>\<open>d.Info()\<close> returns, as far as
  the program uses it: the size, and the modification time already formatted by
  \<^verbatim>\<open>ModTime().UTC().Format(time.RFC3339)\<close>. A node is an entry that is not a directory (with
  the result of \<^verbatim>\<open>d.Info()\<close>, \<open>None\<close> when it fails, and what opening and reading it gives)
  or a directory (with the result of \<^verbatim>\<open>d.Info()\<close>, whether \<^verbatim>\<open>os.ReadDir\<close> succeeds, and the
  entries \<^verbatim>\<open>os.ReadDir\<close> returns, by name, in its sorted order).
\<close>

record FileInfo =
  fi_size :: int64
  fi_mtime :: string

datatype node =
    File "FileInfo option" "content option"
  | Directory "FileInfo option" bool "(string \<times> node) list"

fun nodeInfo :: "node \<Rightarrow> FileInfo option" where
  "nodeInfo (File i c) = i"
| "nodeInfo (Directory i ok ents) = i"

text \<open>
  One call of the function given to \<^verbatim>\<open>filepath.WalkDir\<close>: the path, \<^verbatim>\<open>d.IsDir()\<close>, whether
  the error argument is set, the result of \<^verbatim>\<open>d.Info()\<close>, and the file as \<^verbatim>\<open>hashFile\<close> would
  find it at that path.
\<close>

datatype visit = Visit (v_path: string) (v_isDir: bool) (v_walkErr: bool)
  (v_info: "FileInfo option") (v_file: "content option")

text \<open>
  \<^verbatim>\<open>walkDir\<close> of the library: the entry itself; for a directory whose \<^verbatim>\<open>ReadDir\<close> fails a
  second call with the error; then the entries in order. Both functions that \<^verbatim>\<open>main.go\<close>
  passes return \<^verbatim>\<open>nil\<close> or a storage error, never \<^verbatim>\<open>SkipDir\<close> or \<^verbatim>\<open>SkipAll\<close>, so the calls
  are this list, cut at the first call that returns an error.
\<close>

fun walkDir :: "string \<Rightarrow> node \<Rightarrow> visit list" where
  "walkDir path (File i c) = [Visit path False False i c]"
| "walkDir path (Directory i ok ents) =
     Visit path True False i None
     # (if ok then [] else [Visit path True True i None])
     @ concat (map (\<lambda>e. walkDir (Join path (fst e)) (snd e)) ents)"

text \<open>
  \<^verbatim>\<open>WalkDir\<close>: \<^verbatim>\<open>os.Lstat(root)\<close> fails when nothing is at the root (\<open>None\<close>) or its metadata
  cannot be read; the function is then called once, with the error.
\<close>

definition WalkDir :: "string \<Rightarrow> node option \<Rightarrow> visit list" where
  "WalkDir root fs =
     (case fs of
        None \<Rightarrow> [Visit root False True None None]
      | Some n \<Rightarrow>
          (if nodeInfo n = None then [Visit root False True None None] else walkDir root n))"

section \<open>Estimator\<close>

definition estimateStep :: "string set \<Rightarrow> visit \<Rightarrow> int64 \<Rightarrow> int64" where
  "estimateStep extFilter v count =
     (if v_walkErr v then count
      else if \<not> v_isDir v then
        (let ext = toLower (Ext (v_path v)) in
         if extFilter \<noteq> {} then (if ext \<in> extFilter then count + 1 else count)
         else count + 1)
      else count)"

definition estimateFileCount :: "node option \<Rightarrow> string \<Rightarrow> string set \<Rightarrow> int64" where
  "estimateFileCount fs root extFilter = fold (estimateStep extFilter) (WalkDir root fs) 0"

section \<open>The store\<close>

text \<open>
  The two tables of \<^verbatim>\<open>initSchema\<close>, each keyed by its primary key. The column \<^verbatim>\<open>sha256\<close> is
  \<open>None\<close> when it is \<^verbatim>\<open>NULL\<close>.
\<close>

record folderRow =
  d_path :: string
  d_parent_path :: string
  d_mtime_utc :: string

record fileRow =
  f_abs_path :: string
  f_folder_path :: string
  f_name :: string
  f_ext :: string
  f_size :: int64
  f_mtime_utc :: string
  f_mime :: string
  f_sha256 :: "string option"

record store =
  t_folders :: "string \<rightharpoonup> folderRow"
  t_files :: "string \<rightharpoonup> fileRow"

definition emptyStore :: store where
  "emptyStore = \<lparr>t_folders = Map.empty, t_files = Map.empty\<rparr>"

text \<open>
  \<^verbatim>\<open>INSERT INTO folders ... ON CONFLICT(path) DO UPDATE SET mtime_utc=excluded.mtime_utc\<close>
\<close>

definition upsertFolder :: "folderRow \<Rightarrow> store \<Rightarrow> store" where
  "upsertFolder new st =
     (case t_folders st (d_path new) of
        None \<Rightarrow> st\<lparr>t_folders := (t_folders st)(d_path new \<mapsto> new)\<rparr>
      | Some old \<Rightarrow>
          st\<lparr>t_folders := (t_folders st)(d_path new \<mapsto> old\<lparr>d_mtime_utc := d_mtime_utc new\<rparr>)\<rparr>)"

text \<open>
  \<^verbatim>\<open>INSERT INTO files ... ON CONFLICT(abs_path) DO UPDATE SET size=excluded.size,
  mtime_utc=excluded.mtime_utc, mime=excluded.mime,
  sha256=COALESCE(excluded.sha256, files.sha256)\<close>
\<close>

definition coalesce :: "'a option \<Rightarrow> 'a option \<Rightarrow> 'a option" where
  "coalesce a b = (case a of Some x \<Rightarrow> Some x | None \<Rightarrow> b)"

definition upsertFile :: "fileRow \<Rightarrow> store \<Rightarrow> store" where
  "upsertFile new st =
     (case t_files st (f_abs_path new) of
        None \<Rightarrow> st\<lparr>t_files := (t_files st)(f_abs_path new \<mapsto> new)\<rparr>
      | Some old \<Rightarrow>
          st\<lparr>t_files := (t_files st)(f_abs_path new \<mapsto>
               old\<lparr>f_size := f_size new, f_mtime_utc := f_mtime_utc new, f_mime := f_mime new,
                   f_sha256 := coalesce (f_sha256 new) (f_sha256 old)\<rparr>)\<rparr>)"



section \<open>Crawl-persist engine\<close>

text \<open>
  An \<^verbatim>\<open>error\<close> of the storage layer. Which operations fail is an input of the model: for
  each kind of operation the list of the results of its successive calls, \<open>None\<close> for a call
  that succeeds; a list that is used up means that the later calls succeed.
\<close>

datatype error = Error string

record faults =
  fl_open :: "error option"
  fl_schema :: "error option"
  fl_pragma :: "error option"
  fl_begin :: "error option list"
  fl_prepare :: "error option list"
  fl_exec :: "error option list"
  fl_commit :: "error option list"

definition noFaults :: faults where
  "noFaults = \<lparr>fl_open = None, fl_schema = None, fl_pragma = None, fl_begin = [],
                fl_prepare = [], fl_exec = [], fl_commit = []\<rparr>"

definition headFault :: "error option list \<Rightarrow> error option" where
  "headFault fs = (case fs of [] \<Rightarrow> None | f # _ \<Rightarrow> f)"

text \<open>
  What the run does to the world, in order: a row written by a statement, a commit, a call
  of \<^verbatim>\<open>progress\<close> with its four arguments, a transaction begun, a statement prepared, a
  rollback.
\<close>

datatype event =
    Upserted string
  | Committed
  | Progress int64 int64 string int64
  | Begun
  | Prepared
  | RolledBack

text \<open>
  The variables of \<^verbatim>\<open>scanAndPersist\<close> that the walk function captures, and the database:
  \<open>db\<close> is the committed content, \<open>txStore\<close> the content as the open transaction sees it.
  The variable \<^verbatim>\<open>tx\<close> is \<^verbatim>\<open>nil\<close> after a failed \<^verbatim>\<open>db.Begin()\<close>.
\<close>

datatype txRef = TxNil | TxOpen | TxDone

record scan =
  files :: int64
  dirs :: int64
  batch :: int
  tx :: txRef
  db :: store
  txStore :: store
  events :: "event list"
  flt :: faults

definition andThen :: "error option \<times> scan \<Rightarrow> (scan \<Rightarrow> error option \<times> scan) \<Rightarrow> error option \<times> scan" where
  "andThen r f = (case r of (Some e, s) \<Rightarrow> (Some e, s) | (None, s) \<Rightarrow> f s)"

definition dbBegin :: "scan \<Rightarrow> error option \<times> scan" where
  "dbBegin s =
     (let s1 = s\<lparr>flt := (flt s)\<lparr>fl_begin := tl (fl_begin (flt s))\<rparr>\<rparr> in
      case headFault (fl_begin (flt s)) of
        Some e \<Rightarrow> (Some e, s1\<lparr>tx := TxNil\<rparr>)
      | None \<Rightarrow> (None, s1\<lparr>tx := TxOpen, txStore := db s, events := events s @ [Begun]\<rparr>))"

definition txPrepare :: "scan \<Rightarrow> error option \<times> scan" where
  "txPrepare s =
     (let s1 = s\<lparr>flt := (flt s)\<lparr>fl_prepare := tl (fl_prepare (flt s))\<rparr>\<rparr> in
      case headFault (fl_prepare (flt s)) of
        Some e \<Rightarrow> (Some e, s1)
      | None \<Rightarrow> (None, s1\<lparr>events := events s @ [Prepared]\<rparr>))"

text \<open>
  A statement that fails writes nothing. A commit that fails leaves the committed content as
  it was, and the transaction is finished either way.
\<close>

definition stmtExec :: "string \<Rightarrow> (store \<Rightarrow> store) \<Rightarrow> scan \<Rightarrow> error option \<times> scan" where
  "stmtExec key write s =
     (let s1 = s\<lparr>flt := (flt s)\<lparr>fl_exec := tl (fl_exec (flt s))\<rparr>\<rparr> in
      case headFault (fl_exec (flt s)) of
        Some e \<Rightarrow> (Some e, s1)
      | None \<Rightarrow> (None, s1\<lparr>txStore := write (txStore s), events := events s @ [Upserted key]\<rparr>))"

definition txCommit :: "scan \<Rightarrow> error option \<times> scan" where
  "txCommit s =
     (let s1 = s\<lparr>flt := (flt s)\<lparr>fl_commit := tl (fl_commit (flt s))\<rparr>\<rparr> in
      case headFault (fl_commit (flt s)) of
        Some e \<Rightarrow> (Some e, s1\<lparr>tx := TxDone\<rparr>)
      | None \<Rightarrow> (None, s1\<lparr>tx := TxDone, db := txStore s, events := events s @ [Committed]\<rparr>))"

text \<open>\<^verbatim>\<open>tx.Rollback()\<close> on a finished transaction only returns \<^verbatim>\<open>ErrTxDone\<close>.\<close>

definition txRollback :: "scan \<Rightarrow> scan" where
  "txRollback s =
     (if tx s = TxOpen then s\<lparr>tx := TxDone, events := events s @ [RolledBack]\<rparr> else s)"

text \<open>
  The block after \<^verbatim>\<open>batch++\<close>, which the source has once in the directory branch and once
  in the file branch, word for word.
\<close>

definition batchStep :: "string \<Rightarrow> int64 \<Rightarrow> scan \<Rightarrow> error option \<times> scan" where
  "batchStep p estimatedTotal s0 =
     (let s = s0\<lparr>batch := batch s0 + 1\<rparr> in
      if batch s \<ge> 1000 then
        andThen (txCommit s) (\<lambda>s.
        andThen (dbBegin (s\<lparr>events := events s @ [Progress (files s) (dirs s) p estimatedTotal]\<rparr>)) (\<lambda>s.
        andThen (txPrepare s) (\<lambda>s.
        andThen (txPrepare s) (\<lambda>s. (None, s\<lparr>batch := 0\<rparr>)))))
      else (None, s))"

text \<open>The parent recorded for a directory.\<close>

definition folderParent :: "string \<Rightarrow> string" where
  "folderParent p = (let parent = Dir p in if parent = p then [] else parent)"

text \<open>The function that \<^verbatim>\<open>scanAndPersist\<close> gives to \<^verbatim>\<open>filepath.WalkDir\<close>.\<close>

definition walkFn ::
  "(string \<Rightarrow> string) \<Rightarrow> string set \<Rightarrow> bool \<Rightarrow> int64 \<Rightarrow> visit \<Rightarrow> scan \<Rightarrow> error option \<times> scan" where
  "walkFn typeByExtension extFilter hash estimatedTotal v s =
     (if v_walkErr v then (None, s)
      else case v_info v of
        None \<Rightarrow> (None, s)
      | Some info \<Rightarrow>
          (let p = v_path v in
           if v_isDir v then
             (let s1 = s\<lparr>dirs := dirs s + 1\<rparr>;
                  row = \<lparr>d_path = p, d_parent_path = folderParent p, d_mtime_utc = fi_mtime info\<rparr>
              in andThen (stmtExec p (upsertFolder row) s1) (batchStep p estimatedTotal))
           else
             (let ext = toLower (Ext p) in
              if extFilter \<noteq> {} \<and> ext \<notin> extFilter then (None, s)
              else
                (let s1 = s\<lparr>files := files s + 1\<rparr>;
                     sum = (if hash then (let h = hashFile (v_file v) in
                                          if h \<noteq> [] then Some h else None)
                            else None);
                     row = \<lparr>f_abs_path = p, f_folder_path = Dir p, f_name = Base p, f_ext = ext,
                            f_size = fi_size info, f_mtime_utc = fi_mtime info,
                            f_mime = detectMIME typeByExtension ext, f_sha256 = sum\<rparr>
                 in andThen (stmtExec p (upsertFile row) s1) (batchStep p estimatedTotal)))))"

text \<open>The walk calls the function on each entry and stops at the first error it returns.\<close>

fun walkVisits :: "(visit \<Rightarrow> scan \<Rightarrow> error option \<times> scan) \<Rightarrow> visit list \<Rightarrow> scan \<Rightarrow> error option \<times> scan" where
  "walkVisits fn [] s = (None, s)"
| "walkVisits fn (v # vs) s =
     (case fn v s of (Some e, s') \<Rightarrow> (Some e, s') | (None, s') \<Rightarrow> walkVisits fn vs s')"

text \<open>
  \<^verbatim>\<open>scanAndPersist\<close> returns an error or \<^verbatim>\<open>nil\<close>, or it panics: after a failed
  \<^verbatim>\<open>db.Begin()\<close> inside the walk, \<^verbatim>\<open>tx\<close> is \<^verbatim>\<open>nil\<close> and \<^verbatim>\<open>tx.Rollback()\<close> dereferences it. The
  deferred \<^verbatim>\<open>db.Close()\<close> drops whatever a transaction still holds, so the store after the
  run is \<open>db\<close> of the last state. The three \<^verbatim>\<open>CREATE INDEX\<close> statements change no row and
  their errors are discarded.
\<close>

datatype outcome = Returned "error option" | Panicked

definition initScan :: "store \<Rightarrow> faults \<Rightarrow> scan" where
  "initScan st fl = \<lparr>files = 0, dirs = 0, batch = 0, tx = TxNil, db = st, txStore = st,
                     events = [], flt = fl\<rparr>"

definition scanAndPersist ::
  "(string \<Rightarrow> string) \<Rightarrow> node option \<Rightarrow> store \<Rightarrow> faults \<Rightarrow> string \<Rightarrow> string set \<Rightarrow> bool \<Rightarrow> int64
     \<Rightarrow> outcome \<times> scan" where
  "scanAndPersist typeByExtension fs st fl root extFilter hash estimatedTotal =
     (let s0 = initScan st fl in
      if fl_open fl \<noteq> None then (Returned (fl_open fl), s0)
      else if fl_schema fl \<noteq> None then (Returned (fl_schema fl), s0)
      else if fl_pragma fl \<noteq> None then (Returned (fl_pragma fl), s0)
      else
        (case andThen (dbBegin s0) (\<lambda>s. andThen (txPrepare s) txPrepare) of
           (Some e, s) \<Rightarrow> (Returned (Some e), s)
         | (None, s) \<Rightarrow>
             (case walkVisits (walkFn typeByExtension extFilter hash estimatedTotal)
                     (WalkDir (Clean root) fs) s of
                (Some e, s) \<Rightarrow>
                  (if tx s = TxNil then (Panicked, s) else (Returned (Some e), txRollback s))
              | (None, s) \<Rightarrow>
                  (case txCommit s of
                     (Some e, s) \<Rightarrow> (Returned (Some e), s)
                   | (None, s) \<Rightarrow>
                       (Returned None,
                        s\<lparr>events := events s @
                             [Progress (files s) (dirs s) [] estimatedTotal]\<rparr>)))))"

text \<open>
  \<^verbatim>\<open>runScan\<close>: the estimate, then the run, then one \<^verbatim>\<open>doneMsg\<close> with what the run returned;
  no message when the run panics.
\<close>

datatype doneMsg = DoneMsg "error option"

definition runScan ::
  "(string \<Rightarrow> string) \<Rightarrow> node option \<Rightarrow> store \<Rightarrow> faults \<Rightarrow> string \<Rightarrow> string set \<Rightarrow> bool
     \<Rightarrow> doneMsg option \<times> scan" where
  "runScan typeByExtension fs st fl root extFilter hash =
     (let estimatedTotal = estimateFileCount fs root extFilter in
      case scanAndPersist typeByExtension fs st fl root extFilter hash estimatedTotal of
        (Returned err, s) \<Rightarrow> (Some (DoneMsg err), s)
      | (Panicked, s) \<Rightarrow> (None, s))"



section \<open>Specification side\<close>




text \<open>A file record with a hash: the row exists and its \<^verbatim>\<open>sha256\<close> is not \<^verbatim>\<open>NULL\<close>.\<close>

definition hashed :: "store \<Rightarrow> string \<Rightarrow> bool" where
  "hashed st p = (case t_files st p of None \<Rightarrow> False | Some r \<Rightarrow> f_sha256 r \<noteq> None)"

text \<open>
  What a call of the walk function writes. A call writes a folder record when the entry came
  without error, its metadata could be read and it is a directory; a file record when the
  entry came without error, its metadata could be read, it is not a directory and it passes
  the filter; nothing otherwise.
\<close>

definition isFolderVisit :: "visit \<Rightarrow> bool" where
  "isFolderVisit v = (\<not> v_walkErr v \<and> v_info v \<noteq> None \<and> v_isDir v)"

definition passesFilter :: "string set \<Rightarrow> string \<Rightarrow> bool" where
  "passesFilter extFilter p = (extFilter = {} \<or> toLower (Ext p) \<in> extFilter)"

definition isFileVisit :: "string set \<Rightarrow> visit \<Rightarrow> bool" where
  "isFileVisit extFilter v =
     (\<not> v_walkErr v \<and> v_info v \<noteq> None \<and> \<not> v_isDir v \<and> passesFilter extFilter (v_path v))"

definition folderRowOf :: "visit \<Rightarrow> folderRow" where
  "folderRowOf v =
     \<lparr>d_path = v_path v, d_parent_path = folderParent (v_path v),
      d_mtime_utc = fi_mtime (the (v_info v))\<rparr>"

definition fileRowOf :: "(string \<Rightarrow> string) \<Rightarrow> bool \<Rightarrow> visit \<Rightarrow> fileRow" where
  "fileRowOf typeByExtension hash v =
     \<lparr>f_abs_path = v_path v, f_folder_path = Dir (v_path v), f_name = Base (v_path v),
      f_ext = toLower (Ext (v_path v)), f_size = fi_size (the (v_info v)),
      f_mtime_utc = fi_mtime (the (v_info v)),
      f_mime = detectMIME typeByExtension (toLower (Ext (v_path v))),
      f_sha256 = (if hash \<and> hashFile (v_file v) \<noteq> [] then Some (hashFile (v_file v)) else None)\<rparr>"

definition visitWrite ::
  "(string \<Rightarrow> string) \<Rightarrow> string set \<Rightarrow> bool \<Rightarrow> visit \<Rightarrow> (store \<Rightarrow> store) option" where
  "visitWrite typeByExtension extFilter hash v =
     (if isFolderVisit v then Some (upsertFolder (folderRowOf v))
      else if isFileVisit extFilter v then Some (upsertFile (fileRowOf typeByExtension hash v))
      else None)"

definition applyVisit ::
  "(string \<Rightarrow> string) \<Rightarrow> string set \<Rightarrow> bool \<Rightarrow> visit \<Rightarrow> store \<Rightarrow> store" where
  "applyVisit typeByExtension extFilter hash v st =
     (case visitWrite typeByExtension extFilter hash v of None \<Rightarrow> st | Some w \<Rightarrow> w st)"

text \<open>The store after the records of a list of calls are written to it, in order.\<close>

definition catalog ::
  "(string \<Rightarrow> string) \<Rightarrow> string set \<Rightarrow> bool \<Rightarrow> visit list \<Rightarrow> store \<Rightarrow> store" where
  "catalog typeByExtension extFilter hash vs st =
     fold (applyVisit typeByExtension extFilter hash) vs st"

text \<open>
  The batching rule in the words of the specification: \<open>n\<close> counts the upserts of folders
  and files together; after each upsert that brings the count to a multiple of 1000 come the
  commit, the progress signal with the two counts, the path just processed and the
  estimate, and the new transaction with its two prepared statements.
\<close>

fun batchEvents :: "string set \<Rightarrow> int64 \<Rightarrow> nat \<Rightarrow> int64 \<Rightarrow> int64 \<Rightarrow> visit list \<Rightarrow> event list" where
  "batchEvents F est n f d [] = []"
| "batchEvents F est n f d (v # vs) =
     (if isFolderVisit v \<or> isFileVisit F v then
        (let f' = (if isFileVisit F v then f + 1 else f);
             d' = (if isFolderVisit v then d + 1 else d)
         in Upserted (v_path v)
            # (if Suc n mod 1000 = 0
               then [Committed, Progress f' d' (v_path v) est, Begun, Prepared, Prepared]
               else [])
            @ batchEvents F est (Suc n) f' d' vs)
      else batchEvents F est n f d vs)"

text \<open>
  The progress signals of a run, each with the number of upserts before it and its last
  path.
\<close>

fun isUpserted :: "event \<Rightarrow> bool" where
  "isUpserted (Upserted k) = True"
| "isUpserted e = False"

definition upserts :: "event list \<Rightarrow> nat" where
  "upserts es = length (filter isUpserted es)"

fun progressPoints :: "nat \<Rightarrow> event list \<Rightarrow> (nat \<times> string) list" where
  "progressPoints n [] = []"
| "progressPoints n (Upserted k # es) = progressPoints (Suc n) es"
| "progressPoints n (Progress f d p t # es) = (n, p) # progressPoints n es"
| "progressPoints n (e # es) = progressPoints n es"

text \<open>
  The extensions in the \<^verbatim>\<open>files\<close> table, and the extensions present in the tree: those of
  the entries that are not directories, came without error and have readable metadata.
\<close>

definition catalogedExts :: "store \<Rightarrow> string set" where
  "catalogedExts st = f_ext ` ran (t_files st)"

definition presentExts :: "visit list \<Rightarrow> string set" where
  "presentExts vs =
     (\<lambda>v. toLower (Ext (v_path v))) ` {v \<in> set vs. \<not> v_walkErr v \<and> \<not> v_isDir v \<and> v_info v \<noteq> None}"

text \<open>
  A run in which no storage operation fails: the state after the setup, one step of the
  walk, and the end of the run.
\<close>

definition startScan :: "store \<Rightarrow> scan" where
  "startScan st = (initScan st noFaults)\<lparr>tx := TxOpen, events := [Begun, Prepared, Prepared]\<rparr>"

definition stepOK ::
  "(string \<Rightarrow> string) \<Rightarrow> string set \<Rightarrow> bool \<Rightarrow> int64 \<Rightarrow> visit \<Rightarrow> scan \<Rightarrow> scan" where
  "stepOK typeByExtension extFilter hash estimatedTotal v s =
     (case visitWrite typeByExtension extFilter hash v of
        None \<Rightarrow> s
      | Some w \<Rightarrow>
          (let f = (if v_isDir v then files s else files s + 1);
               d = (if v_isDir v then dirs s + 1 else dirs s);
               st = w (txStore s);
               ev = events s @ [Upserted (v_path v)]
           in if batch s + 1 \<ge> 1000
              then s\<lparr>files := f, dirs := d, batch := 0, tx := TxOpen, db := st, txStore := st,
                     events := ev @ [Committed, Progress f d (v_path v) estimatedTotal,
                                     Begun, Prepared, Prepared]\<rparr>
              else s\<lparr>files := f, dirs := d, batch := batch s + 1, txStore := st, events := ev\<rparr>))"

definition finishScan :: "int64 \<Rightarrow> scan \<Rightarrow> scan" where
  "finishScan est s =
     s\<lparr>tx := TxDone, db := txStore s,
       events := events s @ [Committed, Progress (files s) (dirs s) [] est]\<rparr>"

text \<open>Invariants of the tables: the columns that an upsert never updates.\<close>

definition extsKept :: "store \<Rightarrow> bool" where
  "extsKept st = (\<forall>p r. t_files st p = Some r \<longrightarrow> f_ext r = toLower (Ext p))"

definition parentsKept :: "store \<Rightarrow> bool" where
  "parentsKept st = (\<forall>p r. t_folders st p = Some r \<longrightarrow> d_parent_path r = folderParent p)"

text \<open>Measures on the loop of \<open>Clean\<close>.\<close>

definition needsSep :: "bool \<Rightarrow> string \<Rightarrow> bool" where
  "needsSep rooted out = (rooted \<and> length out \<noteq> 1 \<or> \<not> rooted \<and> length out \<noteq> 0)"

definition endsSep :: "string \<Rightarrow> nat" where
  "endsSep cs = (if cs \<noteq> [] \<and> isSep (last cs) then 1 else 0)"

definition startsElem :: "bool \<Rightarrow> string \<Rightarrow> string \<Rightarrow> nat" where
  "startsElem rooted out cs = (if needsSep rooted out \<and> cs \<noteq> [] \<and> \<not> isSep (hd cs) then 1 else 0)"

text \<open>
  Runs with storage faults. \<open>firstFault\<close> is the first error in a plan; \<open>commits\<close> counts the
  commits that succeeded; \<open>catalogFirst m\<close> is the store after the first \<open>m\<close> upserts of the
  walk. \<open>onlyWritesFail\<close>: the database opens, and no \<^verbatim>\<open>Begin\<close> and no \<^verbatim>\<open>Prepare\<close> fails, so
  that the operations that can fail are the executions of the statements and the commits.
\<close>

definition firstFault :: "error option list \<Rightarrow> error option" where
  "firstFault fs = headFault (dropWhile (\<lambda>x. x = None) fs)"

definition commits :: "event list \<Rightarrow> nat" where
  "commits es = length (filter (\<lambda>e. e = Committed) es)"

fun catalogFirst ::
  "(string \<Rightarrow> string) \<Rightarrow> string set \<Rightarrow> bool \<Rightarrow> nat \<Rightarrow> visit list \<Rightarrow> store \<Rightarrow> store" where
  "catalogFirst tbe F hash 0 vs st = st"
| "catalogFirst tbe F hash (Suc m) [] st = st"
| "catalogFirst tbe F hash (Suc m) (v # vs) st =
     (case visitWrite tbe F hash v of
        None \<Rightarrow> catalogFirst tbe F hash (Suc m) vs st
      | Some w \<Rightarrow> catalogFirst tbe F hash m vs (w st))"

definition onlyWritesFail :: "faults \<Rightarrow> bool" where
  "onlyWritesFail fl =
     (fl_open fl = None \<and> fl_schema fl = None \<and> fl_pragma fl = None
      \<and> firstFault (fl_begin fl) = None \<and> firstFault (fl_prepare fl) = None)"

text \<open>
  The write that fails first, from the plan alone. \<open>faultAt\<close> gives the position, counted
  from 0, and the error of the first fault of a plan; \<open>writes\<close> is the number of upserts that
  the walk asks for. In a walk of \<open>n\<close> upserts that starts with \<open>b\<close> upserts in the open batch,
  the execution number \<open>i\<close> takes place when \<open>i < n\<close>, the commit number \<open>j\<close> comes after the
  upsert that brings the count of the batches to \<open>1000 * (j + 1)\<close>, and the commit at the end
  of the run is number \<open>(n + b) div 1000\<close>. The run fails with the error of the execution
  \<open>i\<close> when that execution takes place before the commit \<open>j\<close>, with the error of the commit
  \<open>j\<close> when that commit takes place, and does not fail otherwise.
\<close>

fun faultAt :: "error option list \<Rightarrow> (nat \<times> error) option" where
  "faultAt [] = None"
| "faultAt (None # fs) = map_option (\<lambda>(i, e). (Suc i, e)) (faultAt fs)"
| "faultAt (Some e # fs) = Some (0, e)"

definition failureFrom :: "nat \<Rightarrow> error option list \<Rightarrow> error option list \<Rightarrow> nat \<Rightarrow> error option" where
  "failureFrom b execs cmts n =
     (case faultAt execs of
        None \<Rightarrow>
          (case faultAt cmts of
             None \<Rightarrow> None
           | Some (j, c) \<Rightarrow> if j \<le> (n + b) div 1000 then Some c else None)
      | Some (i, e) \<Rightarrow>
          (case faultAt cmts of
             None \<Rightarrow> if i < n then Some e else None
           | Some (j, c) \<Rightarrow>
               if i < n \<and> i + b < 1000 * (j + 1) then Some e
               else if j \<le> (n + b) div 1000 then Some c else None))"


definition writes :: "string set \<Rightarrow> visit list \<Rightarrow> nat" where
  "writes F vs = length (filter (\<lambda>v. isFolderVisit v \<or> isFileVisit F v) vs)"

definition writeFailure :: "faults \<Rightarrow> nat \<Rightarrow> error option" where
  "writeFailure fl n = failureFrom 0 (fl_exec fl) (fl_commit fl) n"

text \<open>
  The state between two calls of the walk function, and the progress signals of the walk:
  each comes when the count of upserts is a positive multiple of 1000.
\<close>

definition walkInv :: "scan \<Rightarrow> bool" where
  "walkInv s = (tx s = TxOpen \<and> 0 \<le> batch s \<and> batch s < 1000
                \<and> firstFault (fl_begin (flt s)) = None)"

definition atBatches :: "nat \<Rightarrow> event list \<Rightarrow> bool" where
  "atBatches n es = list_all (\<lambda>kp. 0 < fst kp \<and> fst kp mod 1000 = 0) (progressPoints n es)"


section \<open>Examples\<close>

text \<open>
  The tree of the specification's scenario (a root with two files and a subdirectory holding
  a third), a directory whose only file has unreadable metadata, and a directory with one
  text file.
\<close>

definition exInfo :: FileInfo where
  "exInfo = \<lparr>fi_size = 8, fi_mtime = ''2024-01-01T00:00:00Z''\<rparr>"

definition exTree :: node where
  "exTree = Directory (Some exInfo) True
     [(''file1.txt'', File (Some exInfo) (Some (ReadAll []))),
      (''file2.pdf'', File (Some exInfo) (Some (ReadAll []))),
      (''subdir'', Directory (Some exInfo) True
         [(''file3.docx'', File (Some exInfo) (Some (ReadAll [])))])]"

definition exUnreadable :: node where
  "exUnreadable = Directory (Some exInfo) True [(''a.txt'', File None None)]"

definition exTxtOnly :: node where
  "exTxtOnly = Directory (Some exInfo) True [(''a.txt'', File (Some exInfo) None)]"

text \<open>A plan in which the second statement executed fails.\<close>

definition exDiskFull :: faults where
  "exDiskFull = noFaults\<lparr>fl_exec := [None, Some (Error ''disk full'')]\<rparr>"

text \<open>
  A root directory with \<open>n\<close> files, named \<open>f\<close>, \<open>ff\<close>, \<open>fff\<close> and so on, the call of the walk
  function for the \<open>i\<close>-th of them under the root \<open>/\<close>, and a plan in which the first thousand
  statements succeed and the next one fails.
\<close>

definition exName :: "nat \<Rightarrow> string" where
  "exName i = replicate (Suc i) CHR ''f''"

definition exEntry :: "nat \<Rightarrow> visit" where
  "exEntry i = Visit (Join ''/'' (exName i)) False False (Some exInfo) None"

definition exBig :: "nat \<Rightarrow> node" where
  "exBig n = Directory (Some exInfo) True (map (\<lambda>i. (exName i, File (Some exInfo) None)) [0..<n])"

definition exLateFault :: faults where
  "exLateFault = noFaults\<lparr>fl_exec := replicate 1000 None @ [Some (Error ''disk full'')]\<rparr>"

section \<open>Properties\<close>

subsection \<open>Extension filter\<close>



subsection \<open>Upsert of a file record\<close>

lemma upsertFile_row:
  "t_files (upsertFile new st) (f_abs_path new) =
     Some (case t_files st (f_abs_path new) of
             None \<Rightarrow> new
           | Some old \<Rightarrow> old\<lparr>f_size := f_size new, f_mtime_utc := f_mtime_utc new,
                            f_mime := f_mime new,
                            f_sha256 := coalesce (f_sha256 new) (f_sha256 old)\<rparr>)"
  by (simp add: upsertFile_def split: option.splits)

lemma upsertFile_other:
  "p \<noteq> f_abs_path new \<Longrightarrow> t_files (upsertFile new st) p = t_files st p"
  by (simp add: upsertFile_def split: option.splits)

lemma hashed_upsertFile: "hashed st p \<Longrightarrow> hashed (upsertFile new st) p"
  by (cases "p = f_abs_path new")
     (auto simp: hashed_def upsertFile_row upsertFile_other coalesce_def split: option.splits)

lemma hashed_fold: "hashed st p \<Longrightarrow> hashed (fold upsertFile rows st) p"
  by (induction rows arbitrary: st) (simp_all add: hashed_upsertFile)


text \<open>
  C1. The upsert of a file record leaves at its \<^verbatim>\<open>abs_path\<close> a row whose size, modification
  time and MIME type are the incoming ones, whatever was there, and whose hash is the
  incoming one when that is not null and the stored one otherwise. A record that has a hash
  keeps a hash through every later sequence of upserts.
\<close>

theorem sticky_hash:
  "(\<exists>r. t_files (upsertFile new st) (f_abs_path new) = Some r
        \<and> f_size r = f_size new \<and> f_mtime_utc r = f_mtime_utc new \<and> f_mime r = f_mime new
        \<and> f_sha256 r = (case f_sha256 new of
                          Some h \<Rightarrow> Some h
                        | None \<Rightarrow> (case t_files st (f_abs_path new) of
                                     None \<Rightarrow> None
                                   | Some old \<Rightarrow> f_sha256 old)))
   \<and> (hashed st p \<longrightarrow> hashed (fold upsertFile rows st) p)"
  by (auto simp: upsertFile_row coalesce_def hashed_fold split: option.splits)


theorem sticky_hash_witness:
  "hashed (upsertFile \<lparr>f_abs_path = ''/a'', f_folder_path = ''/'', f_name = ''a'', f_ext = [],
             f_size = 1, f_mtime_utc = ''t1'', f_mime = ''m'', f_sha256 = Some ''ab''\<rparr> emptyStore) ''/a''
   \<and> hashed (fold upsertFile
        [\<lparr>f_abs_path = ''/a'', f_folder_path = ''/'', f_name = ''a'', f_ext = [],
          f_size = 2, f_mtime_utc = ''t2'', f_mime = ''m'', f_sha256 = None\<rparr>]
        (upsertFile \<lparr>f_abs_path = ''/a'', f_folder_path = ''/'', f_name = ''a'', f_ext = [],
             f_size = 1, f_mtime_utc = ''t1'', f_mime = ''m'', f_sha256 = Some ''ab''\<rparr> emptyStore)) ''/a''"
proof -
  let ?r = "\<lparr>f_abs_path = ''/a'', f_folder_path = ''/'', f_name = ''a'', f_ext = [],
             f_size = 1, f_mtime_utc = ''t1'', f_mime = ''m'', f_sha256 = Some ''ab''\<rparr>"
  have h: "hashed (upsertFile ?r emptyStore) ''/a''"
    by (simp add: hashed_def upsertFile_def emptyStore_def)
  from h sticky_hash [of ?r "upsertFile ?r emptyStore" "''/a''"] show ?thesis
    by blast
qed

subsection \<open>Content hasher\<close>










text \<open>
  C2. When the file cannot be opened the result is empty. When it opens and a read fails,
  here at the first byte, the result is not empty: it is the digest of the bytes read
  before the failure.
\<close>

theorem hashFile_read_failure:
  "hashFile None = []
   \<and> hashFile (Some (ReadFails [])) =
       ''e3b0c44298fc1c149afbf4c8996fb92427ae41e4649b934ca495991b7852b855''"
  by code_simp

subsection \<open>Paths\<close>

declare backtrack.simps [simp del]
declare cleanLoop.simps(2) [simp del]

lemma length_backtrack: "length (backtrack dd out) \<le> length out"
proof (induction dd out rule: backtrack.induct)
  case (1 dd out)
  show ?case
  proof (cases "length (butlast out) > dd \<and> \<not> isSep (last out)")
    case True
    then have "backtrack dd out = backtrack dd (butlast out)"
      by (subst backtrack.simps) (simp add: Let_def)
    moreover have "length (backtrack dd (butlast out)) \<le> length (butlast out)"
      using 1 True by simp
    ultimately show ?thesis by simp
  next
    case False
    then have "backtrack dd out = butlast out"
      by (subst backtrack.simps) (auto simp: Let_def)
    then show ?thesis by simp
  qed
qed

lemma atEnd_startsElem: "atEnd cs \<Longrightarrow> startsElem rooted out cs = 0"
  by (cases cs) (simp_all add: atEnd_def startsElem_def)

lemma endsSep_Cons: "cs \<noteq> [] \<Longrightarrow> endsSep (c # cs) = endsSep cs"
  by (simp add: endsSep_def)

lemma endsSep_tl: "cs \<noteq> [] \<Longrightarrow> tl cs \<noteq> [] \<Longrightarrow> endsSep (c # cs) = endsSep (tl cs)"
  by (cases cs) (simp_all add: endsSep_def)

lemma dropWhile_startsElem: "startsElem rooted out (dropWhile (\<lambda>x. \<not> isSep x) cs) = 0"
  using hd_dropWhile [of "\<lambda>x. \<not> isSep x" cs] by (auto simp: startsElem_def)

lemma endsSep_dropWhile:
  "\<not> isSep c \<Longrightarrow> endsSep (c # cs) \<le> endsSep (dropWhile (\<lambda>x. \<not> isSep x) cs)"
proof (cases "dropWhile (\<lambda>x. \<not> isSep x) cs = []")
  case True
  assume "\<not> isSep c"
  from True have "\<forall>x \<in> set cs. \<not> isSep x"
    by (simp add: dropWhile_eq_Nil_conv)
  moreover have "last (c # cs) \<in> set (c # cs)"
    by (rule last_in_set) simp
  ultimately have "\<not> isSep (last (c # cs))"
    using \<open>\<not> isSep c\<close> by auto
  then show ?thesis by (simp add: endsSep_def)
next
  case False
  then have "cs \<noteq> []" by auto
  have "last (dropWhile (\<lambda>x. \<not> isSep x) cs) = last cs"
    using False by (metis last_appendR takeWhile_dropWhile_id)
  with False \<open>cs \<noteq> []\<close> show ?thesis by (simp add: endsSep_def)
qed

lemma clean_potential:
  "length (cleanLoop rooted rest out dd) + endsSep rest
     \<le> length out + length rest + startsElem rooted out rest"
proof (induction rooted rest out dd rule: cleanLoop.induct)
  case (1 rooted out dd)
  then show ?case by (simp add: endsSep_def)
next
  case (2 rooted c cs out dd)
  let ?tw = "takeWhile (\<lambda>x. \<not> isSep x) cs" and ?dw = "dropWhile (\<lambda>x. \<not> isSep x) cs"
  have len: "length ?tw + length ?dw = length cs"
    by (metis length_append takeWhile_dropWhile_id)
  consider (sep) "isSep c"
    | (dot) "\<not> isSep c" "c = CHR ''.'' \<and> atEnd cs"
    | (dotdot) "\<not> isSep c" "\<not> (c = CHR ''.'' \<and> atEnd cs)"
        "c = CHR ''.'' \<and> cs \<noteq> [] \<and> hd cs = CHR ''.'' \<and> atEnd (tl cs)"
    | (elem) "\<not> isSep c" "\<not> (c = CHR ''.'' \<and> atEnd cs)"
        "\<not> (c = CHR ''.'' \<and> cs \<noteq> [] \<and> hd cs = CHR ''.'' \<and> atEnd (tl cs))"
    by blast
  then show ?case
  proof cases
    case sep
    then have eq: "cleanLoop rooted (c # cs) out dd = cleanLoop rooted cs out dd"
      by (simp add: cleanLoop.simps(2))
    show ?thesis
    proof (cases "cs = []")
      case True
      with sep eq show ?thesis by (simp add: endsSep_def startsElem_def)
    next
      case False
      have "startsElem rooted out cs \<le> 1" by (simp add: startsElem_def)
      moreover have "startsElem rooted out (c # cs) = 0" using sep by (simp add: startsElem_def)
      ultimately show ?thesis
        using "2.IH"(1) [OF sep] False eq by (simp add: endsSep_Cons)
    qed
  next
    case dot
    then have eq: "cleanLoop rooted (c # cs) out dd = cleanLoop rooted cs out dd"
      by (simp add: cleanLoop.simps(2))
    have e: "endsSep (c # cs) \<le> endsSep cs"
      using dot by (cases "cs = []") (simp_all add: endsSep_def isSep_def)
    show ?thesis
      using "2.IH"(2) [OF dot(1) dot(2)] dot e eq by (simp add: atEnd_startsElem)
  next
    case dotdot
    then have ne: "cs \<noteq> []" and at: "atEnd (tl cs)" by auto
    have e: "endsSep (c # cs) \<le> endsSep (tl cs)"
      using dotdot by (cases cs) (auto simp: endsSep_def isSep_def split: if_splits)
    have l: "length (tl cs) + 2 = length (c # cs)"
      using ne by (cases cs) simp_all
    show ?thesis
    proof (cases "length out > dd")
      case True
      then have eq: "cleanLoop rooted (c # cs) out dd =
          cleanLoop rooted (tl cs) (backtrack dd out) dd"
        using dotdot by (simp add: cleanLoop.simps(2))
      show ?thesis
        using "2.IH"(3) [OF dotdot(1) dotdot(2) dotdot(3) True] e l length_backtrack [of dd out] eq
        by (simp add: atEnd_startsElem [OF at])
    next
      case False
      show ?thesis
      proof (cases rooted)
        case True
        then have eq: "cleanLoop rooted (c # cs) out dd = cleanLoop rooted (tl cs) out dd"
          using dotdot False by (simp add: cleanLoop.simps(2))
        show ?thesis
          using "2.IH"(5) [OF dotdot(1) dotdot(2) dotdot(3) False] True e l eq
          by (simp add: atEnd_startsElem [OF at])
      next
        case nr: False
        let ?out' = "(if length out > 0 then out @ ''/'' else out) @ ''..''"
        have eq: "cleanLoop rooted (c # cs) out dd =
            cleanLoop rooted (tl cs) ?out' (length ?out')"
          using dotdot False nr by (simp add: cleanLoop.simps(2) Let_def)
        have s: "startsElem rooted out (c # cs) = (if length out > 0 then 1 else 0)"
          using nr dotdot(1) by (simp add: startsElem_def needsSep_def)
        show ?thesis
          using "2.IH"(4) [OF dotdot(1) dotdot(2) dotdot(3) False nr refl] e l s eq
          by (simp add: atEnd_startsElem [OF at] split: if_splits)
      qed
    qed
  next
    case elem
    let ?out' = "(if rooted \<and> length out \<noteq> 1 \<or> \<not> rooted \<and> length out \<noteq> 0
                  then out @ ''/'' else out)"
    have eq: "cleanLoop rooted (c # cs) out dd = cleanLoop rooted ?dw (?out' @ c # ?tw) dd"
      by (simp only: cleanLoop.simps(2) if_not_P [OF elem(1)] if_not_P [OF elem(2)]
            if_not_P [OF elem(3)] Let_def)
    have s: "startsElem rooted out (c # cs) = (if needsSep rooted out then 1 else 0)"
      using elem(1) by (simp add: startsElem_def)
    have lo: "length ?out' = length out + (if needsSep rooted out then 1 else 0)"
      by (simp add: needsSep_def)
    show ?thesis
      using "2.IH"(6) [OF elem(1) elem(2) elem(3) refl] endsSep_dropWhile [OF elem(1), of cs]
        len s lo eq
      by (simp add: dropWhile_startsElem)
  qed
qed

lemma Clean_nonempty: "Clean p \<noteq> []"
  by (simp add: Clean_def Let_def)

lemma Clean_shorter:
  assumes "2 \<le> length p" and "isSep (last p)"
  shows "length (Clean p) < length p"
proof -
  from assms(1) have ne: "p \<noteq> []" by auto
  then obtain c cs where p: "p = c # cs" by (cases p) auto
  with assms(1) have cs: "cs \<noteq> []" by auto
  show ?thesis
  proof (cases "isSep c")
    case True
    have "endsSep cs = 1"
      using assms(2) cs by (simp add: p endsSep_def)
    moreover have "startsElem True ''/'' cs = 0"
      by (simp add: startsElem_def needsSep_def)
    ultimately have "length (cleanLoop True cs ''/'' 1) < length p"
      using clean_potential [of True cs "''/''" 1] by (simp add: p)
    moreover have "1 < length p" using assms(1) by simp
    ultimately show ?thesis
      using True by (simp add: Clean_def p Let_def)
  next
    case False
    have "endsSep p = 1"
      using assms(2) ne by (simp add: endsSep_def)
    moreover have "startsElem False [] p = 0"
      by (simp add: startsElem_def needsSep_def)
    ultimately have "length (cleanLoop False p [] 0) < length p"
      using clean_potential [of False p "[]" 0] by simp
    moreover have "1 < length p" using assms(1) by simp
    ultimately show ?thesis
      using False ne by (simp add: Clean_def p Let_def)
  qed
qed

lemma uptoLastSep_length: "length (uptoLastSep p) \<le> length p"
  by (simp add: uptoLastSep_def) (metis length_dropWhile_le length_rev)

lemma uptoLastSep_last: "uptoLastSep p \<noteq> [] \<Longrightarrow> isSep (last (uptoLastSep p))"
  using hd_dropWhile [of "\<lambda>x. \<not> isSep x" "rev p"]
  by (simp add: uptoLastSep_def last_rev)

lemma uptoLastSep_prefix: "\<exists>r. p = uptoLastSep p @ r"
proof -
  have "rev p = takeWhile (\<lambda>x. \<not> isSep x) (rev p) @ dropWhile (\<lambda>x. \<not> isSep x) (rev p)"
    by simp
  then have "p = rev (dropWhile (\<lambda>x. \<not> isSep x) (rev p)) @ rev (takeWhile (\<lambda>x. \<not> isSep x) (rev p))"
    by (metis rev_append rev_rev_ident)
  then show ?thesis unfolding uptoLastSep_def by blast
qed

lemma Clean_root: "Clean ''/'' = ''/''"
  by (simp add: Clean_def isSep_def)

lemma uptoLastSep_root: "uptoLastSep ''/'' = ''/''"
  by (simp add: uptoLastSep_def isSep_def)

lemma uptoLastSep_dot: "uptoLastSep ''.'' = []"
  by (simp add: uptoLastSep_def isSep_def)

text \<open>A path is its own \<open>Dir\<close> only when it is the root of the file system or the dot.\<close>

lemma Dir_fixed: "Dir p = p \<longleftrightarrow> p = ''/'' \<or> p = ''.''"
proof -
  let ?q = "uptoLastSep p"
  obtain r where pr: "p = ?q @ r" using uptoLastSep_prefix by blast
  consider (empty) "?q = []" | (one) "length ?q = 1" | (more) "2 \<le> length ?q"
    by (cases "?q") (auto simp: Suc_le_eq)
  then show ?thesis
  proof cases
    case empty
    then have "Dir p = ''.''" by (simp add: Dir_def Clean_def)
    moreover have "p \<noteq> ''/''"
    proof
      assume "p = ''/''"
      then have "?q = ''/''" by (simp only: uptoLastSep_root)
      with empty show False by simp
    qed
    ultimately show ?thesis by auto
  next
    case one
    then obtain c where q: "?q = [c]" by (cases ?q) auto
    with uptoLastSep_last [of p] have "c = CHR ''/''" by (simp add: isSep_def)
    with q have d: "Dir p = ''/''" by (simp add: Dir_def Clean_root)
    have "p \<noteq> ''.''"
    proof
      assume "p = ''.''"
      then have "?q = []" by (simp only: uptoLastSep_dot)
      with q show False by simp
    qed
    with d show ?thesis by auto
  next
    case more
    then have "?q \<noteq> []" by auto
    then have "isSep (last ?q)" by (rule uptoLastSep_last)
    with more have "length (Dir p) < length ?q"
      unfolding Dir_def by (rule Clean_shorter)
    then have "length (Dir p) < length p"
      using uptoLastSep_length [of p] by simp
    moreover have "2 \<le> length p"
      using more uptoLastSep_length [of p] by simp
    ultimately show ?thesis by auto
  qed
qed

lemma Dir_nonempty: "Dir p \<noteq> []"
  by (simp add: Dir_def Clean_nonempty)

lemma folderParent_eq:
  "folderParent p = (if p = ''/'' \<or> p = ''.'' then [] else Dir p)"
  using Dir_fixed [of p] by (simp add: folderParent_def Let_def)

subsection \<open>A run without storage faults\<close>

lemma noFaults_tl [simp]:
  "noFaults\<lparr>fl_begin := tl (fl_begin noFaults)\<rparr> = noFaults"
  "noFaults\<lparr>fl_prepare := tl (fl_prepare noFaults)\<rparr> = noFaults"
  "noFaults\<lparr>fl_exec := tl (fl_exec noFaults)\<rparr> = noFaults"
  "noFaults\<lparr>fl_commit := tl (fl_commit noFaults)\<rparr> = noFaults"
  "headFault (fl_begin noFaults) = None"
  "headFault (fl_prepare noFaults) = None"
  "headFault (fl_exec noFaults) = None"
  "headFault (fl_commit noFaults) = None"
  by (simp_all add: noFaults_def headFault_def)

lemma noFaults_setup:
  "fl_open noFaults = None" "fl_schema noFaults = None" "fl_pragma noFaults = None"
  by (simp_all add: noFaults_def)

lemma dbBegin_ok: "flt s = noFaults \<Longrightarrow>
   dbBegin s = (None, s\<lparr>tx := TxOpen, txStore := db s, events := events s @ [Begun]\<rparr>)"
  by (simp add: dbBegin_def)

lemma txPrepare_ok: "flt s = noFaults \<Longrightarrow>
   txPrepare s = (None, s\<lparr>events := events s @ [Prepared]\<rparr>)"
  by (simp add: txPrepare_def)

lemma stmtExec_ok: "flt s = noFaults \<Longrightarrow>
   stmtExec k w s = (None, s\<lparr>txStore := w (txStore s), events := events s @ [Upserted k]\<rparr>)"
  by (simp add: stmtExec_def)

lemma txCommit_ok: "flt s = noFaults \<Longrightarrow>
   txCommit s = (None, s\<lparr>tx := TxDone, db := txStore s, events := events s @ [Committed]\<rparr>)"
  by (simp add: txCommit_def)

lemma batchStep_ok: "flt s = noFaults \<Longrightarrow>
   batchStep p est s =
     (None, if batch s + 1 \<ge> 1000
            then s\<lparr>batch := 0, tx := TxOpen, db := txStore s, txStore := txStore s,
                   events := events s @ [Committed, Progress (files s) (dirs s) p est,
                                         Begun, Prepared, Prepared]\<rparr>
            else s\<lparr>batch := batch s + 1\<rparr>)"
  by (simp add: batchStep_def Let_def andThen_def txCommit_ok dbBegin_ok txPrepare_ok)

lemma walkFn_ok: "flt s = noFaults \<Longrightarrow>
   walkFn tbe F hash est v s = (None, stepOK tbe F hash est v s)"
  by (cases "v_info v")
     (auto simp: walkFn_def stepOK_def visitWrite_def isFolderVisit_def isFileVisit_def
        passesFilter_def folderRowOf_def fileRowOf_def Let_def andThen_def stmtExec_ok
        batchStep_ok)

lemma flt_stepOK [simp]: "flt (stepOK tbe F hash est v s) = flt s"
  by (simp add: stepOK_def Let_def split: option.splits)

lemma walkVisits_ok: "flt s = noFaults \<Longrightarrow>
   walkVisits (walkFn tbe F hash est) vs s = (None, fold (stepOK tbe F hash est) vs s)"
  by (induction vs arbitrary: s) (simp_all add: walkFn_ok)

lemma scanAndPersist_ok:
  "scanAndPersist tbe fs st noFaults root F hash est =
     (Returned None,
      finishScan est (fold (stepOK tbe F hash est) (WalkDir (Clean root) fs) (startScan st)))"
proof -
  have fl: "flt (initScan st noFaults) = noFaults"
    by (simp add: initScan_def)
  have pre: "andThen (dbBegin (initScan st noFaults)) (\<lambda>s. andThen (txPrepare s) txPrepare)
      = (None, startScan st)"
    by (simp add: andThen_def dbBegin_ok txPrepare_ok fl startScan_def initScan_def)
  have fl2: "flt (startScan st) = noFaults"
    by (simp add: startScan_def initScan_def)
  have fl3: "flt (fold (stepOK tbe F hash est) vs (startScan st)) = noFaults" for vs
    by (induction vs rule: rev_induct) (simp_all add: fl2)
  show ?thesis
    unfolding scanAndPersist_def Let_def pre
    by (simp add: noFaults_setup walkVisits_ok fl2 fl3 txCommit_ok finishScan_def)
qed

lemma runScan_ok:
  "runScan tbe fs st noFaults root F hash =
     (Some (DoneMsg None),
      finishScan (estimateFileCount fs root F)
        (fold (stepOK tbe F hash (estimateFileCount fs root F)) (WalkDir (Clean root) fs)
           (startScan st)))"
  by (simp add: runScan_def Let_def scanAndPersist_ok)

lemma finishScan_simps [simp]:
  "files (finishScan est s) = files s"
  "dirs (finishScan est s) = dirs s"
  "db (finishScan est s) = txStore s"
  "events (finishScan est s) = events s @ [Committed, Progress (files s) (dirs s) [] est]"
  by (simp_all add: finishScan_def)

lemma startScan_simps [simp]:
  "files (startScan st) = 0"
  "dirs (startScan st) = 0"
  "batch (startScan st) = 0"
  "txStore (startScan st) = st"
  "db (startScan st) = st"
  "events (startScan st) = [Begun, Prepared, Prepared]"
  by (simp_all add: startScan_def initScan_def)

lemma stepOK_skip:
  "\<not> isFolderVisit v \<Longrightarrow> \<not> isFileVisit F v \<Longrightarrow> stepOK tbe F hash est v s = s"
  by (simp add: stepOK_def visitWrite_def)

lemma not_both: "isFolderVisit v \<Longrightarrow> \<not> isFileVisit F v"
  by (simp add: isFolderVisit_def isFileVisit_def)

lemma files_stepOK:
  "files (stepOK tbe F hash est v s) = (if isFileVisit F v then files s + 1 else files s)"
  by (auto simp: stepOK_def visitWrite_def Let_def isFolderVisit_def isFileVisit_def)

lemma dirs_stepOK:
  "dirs (stepOK tbe F hash est v s) = (if isFolderVisit v then dirs s + 1 else dirs s)"
  by (auto simp: stepOK_def visitWrite_def Let_def isFolderVisit_def isFileVisit_def)

lemma txStore_stepOK:
  "txStore (stepOK tbe F hash est v s) = applyVisit tbe F hash v (txStore s)"
  by (auto simp: stepOK_def applyVisit_def Let_def split: option.splits)

lemma batch_stepOK:
  "batch (stepOK tbe F hash est v s) =
     (if isFolderVisit v \<or> isFileVisit F v
      then (if batch s + 1 \<ge> 1000 then 0 else batch s + 1) else batch s)"
  by (auto simp: stepOK_def visitWrite_def Let_def)

lemma events_stepOK:
  "events (stepOK tbe F hash est v s) =
     events s @
     (if isFolderVisit v \<or> isFileVisit F v then
        Upserted (v_path v)
        # (if batch s + 1 \<ge> 1000
           then [Committed,
                 Progress (if isFileVisit F v then files s + 1 else files s)
                          (if isFolderVisit v then dirs s + 1 else dirs s) (v_path v) est,
                 Begun, Prepared, Prepared]
           else [])
      else [])"
  by (auto simp: stepOK_def visitWrite_def Let_def isFolderVisit_def isFileVisit_def)

lemma files_fold:
  "files (fold (stepOK tbe F hash est) vs s) =
     files s + of_nat (length (filter (isFileVisit F) vs))"
  by (induction vs arbitrary: s) (simp_all add: files_stepOK)

lemma txStore_fold:
  "txStore (fold (stepOK tbe F hash est) vs s) = catalog tbe F hash vs (txStore s)"
  by (induction vs arbitrary: s) (simp_all add: txStore_stepOK catalog_def)

lemma estimate_fold:
  "fold (estimateStep F) vs c =
     c + of_nat (length (filter (\<lambda>v. \<not> v_walkErr v \<and> \<not> v_isDir v \<and> passesFilter F (v_path v)) vs))"
  by (induction vs arbitrary: c) (auto simp: estimateStep_def passesFilter_def Let_def)

lemma mod_1000_step: "int (n mod 1000) + 1 \<ge> 1000 \<longleftrightarrow> Suc n mod 1000 = 0"
proof -
  have "n mod 1000 < 1000" by simp
  then show ?thesis
    unfolding mod_Suc by (cases "Suc (n mod 1000) = 1000") simp_all
qed

lemma mod_1000_next: "Suc n mod 1000 \<noteq> 0 \<Longrightarrow> int (n mod 1000) + 1 = int (Suc n mod 1000)"
  by (simp add: mod_Suc split: if_splits)

lemma events_fold:
  "batch s = int (n mod 1000) \<Longrightarrow>
   events (fold (stepOK tbe F hash est) vs s) =
     events s @ batchEvents F est n (files s) (dirs s) vs"
proof (induction vs arbitrary: s n)
  case Nil
  then show ?case by simp
next
  case (Cons v vs)
  show ?case
  proof (cases "isFolderVisit v \<or> isFileVisit F v")
    case False
    then have "stepOK tbe F hash est v s = s"
      by (simp add: stepOK_skip)
    with False Cons show ?thesis by simp
  next
    case True
    let ?s = "stepOK tbe F hash est v s"
    have b: "batch ?s = int (Suc n mod 1000)"
      using True Cons.prems mod_1000_step [of n] mod_1000_next [of n]
      by (simp add: batch_stepOK)
    have "events (fold (stepOK tbe F hash est) (v # vs) s) =
          events ?s @ batchEvents F est (Suc n) (files ?s) (dirs ?s) vs"
      using Cons.IH [OF b] by simp
    then show ?thesis
      using True Cons.prems mod_1000_step [of n] not_both [of v F]
      by (auto simp: events_stepOK files_stepOK dirs_stepOK Let_def)
  qed
qed

lemma files_run:
  "files (snd (runScan tbe fs st noFaults root F hash)) =
     of_nat (length (filter (isFileVisit F) (WalkDir (Clean root) fs)))"
  by (simp add: runScan_ok files_fold)

lemma db_run:
  "db (snd (runScan tbe fs st noFaults root F hash)) =
     catalog tbe F hash (WalkDir (Clean root) fs) st"
  by (simp add: runScan_ok txStore_fold)

subsection \<open>Events of a run\<close>

lemma upserts_append [simp]: "upserts (es @ es') = upserts es + upserts es'"
  by (simp add: upserts_def)

lemma upserts_simps [simp]:
  "upserts [] = 0"
  "upserts (Upserted k # es) = Suc (upserts es)"
  "upserts (Committed # es) = upserts es"
  "upserts (Progress f d p t # es) = upserts es"
  "upserts (Begun # es) = upserts es"
  "upserts (Prepared # es) = upserts es"
  "upserts (RolledBack # es) = upserts es"
  by (simp_all add: upserts_def)

lemma progressPoints_append:
  "progressPoints n (es @ es') = progressPoints n es @ progressPoints (n + upserts es) es'"
  by (induction n es rule: progressPoints.induct) simp_all

text \<open>The events of a walk of a thousand upserts: the root and 999 files.\<close>

lemma concat_singletons: "concat (map (\<lambda>x. [f x]) xs) = map f xs"
  by (induction xs) simp_all

lemma walk_exBig:
  "WalkDir (Clean ''/'') (Some (exBig n)) =
     Visit ''/'' True False (Some exInfo) None # map exEntry [0..<n]"
  by (simp add: WalkDir_def exBig_def Clean_root comp_def concat_singletons exEntry_def)

lemma exEntry_file: "isFileVisit {} (exEntry i)" "\<not> isFolderVisit (exEntry i)"
  by (simp_all add: isFileVisit_def isFolderVisit_def passesFilter_def exEntry_def)

lemma batchEvents_files:
  assumes "\<forall>v \<in> set vs. isFileVisit F v" and "n + length vs < 1000"
  shows "batchEvents F est n f d vs = map (\<lambda>v. Upserted (v_path v)) vs"
  using assms
proof (induction vs arbitrary: n f d)
  case Nil
  then show ?case by simp
next
  case (Cons v vs)
  then have "Suc n mod 1000 \<noteq> 0" by simp
  with Cons show ?case by (simp add: Let_def)
qed

lemma batchEvents_append:
  "batchEvents F est n f d (vs @ ws) =
     batchEvents F est n f d vs
     @ batchEvents F est (n + length (filter (\<lambda>v. isFolderVisit v \<or> isFileVisit F v) vs))
         (f + of_nat (length (filter (isFileVisit F) vs)))
         (d + of_nat (length (filter isFolderVisit vs))) ws"
  by (induction vs arbitrary: n f d) (auto simp: Let_def not_both add.assoc)

lemma upto_999: "[0..<999] = [0..<998] @ [998]"
  using upt_Suc_append [of 0 998] by simp

lemma exBig_events:
  "batchEvents {} est 0 0 0 (Visit ''/'' True False (Some exInfo) None # map exEntry [0..<999]) =
     Upserted ''/'' # map (\<lambda>i. Upserted (Join ''/'' (exName i))) [0..<998]
     @ [Upserted (Join ''/'' (exName 998)), Committed, Progress 999 1 (Join ''/'' (exName 998)) est,
        Begun, Prepared, Prepared]"
proof -
  have root: "isFolderVisit (Visit ''/'' True False (Some exInfo) None)"
    by (simp add: isFolderVisit_def)
  have files: "\<forall>v \<in> set (map exEntry [0..<998]). isFileVisit {} v"
    by (simp add: exEntry_file)
  have f1: "filter (isFileVisit {}) (map exEntry [0..<998]) = map exEntry [0..<998]"
    by (simp add: filter_map comp_def exEntry_file)
  have f2: "filter isFolderVisit (map exEntry [0..<998]) = []"
    by (simp add: filter_map comp_def exEntry_file)
  have f3: "filter (\<lambda>v. isFolderVisit v \<or> isFileVisit {} v) (map exEntry [0..<998]) = map exEntry [0..<998]"
    by (simp add: filter_map comp_def exEntry_file)
  have first: "batchEvents {} est 1 0 1 (map exEntry [0..<998]) =
      map (\<lambda>v. Upserted (v_path v)) (map exEntry [0..<998])"
    by (rule batchEvents_files [OF files]) simp
  have lst: "batchEvents {} est 999 998 1 [exEntry 998] =
      [Upserted (Join ''/'' (exName 998)), Committed, Progress 999 1 (Join ''/'' (exName 998)) est,
       Begun, Prepared, Prepared]"
    by (simp add: exEntry_file Let_def) (simp add: exEntry_def)
  have "batchEvents {} est 0 0 0 (Visit ''/'' True False (Some exInfo) None # map exEntry [0..<999]) =
      Upserted ''/'' # batchEvents {} est 1 0 1 (map exEntry [0..<998] @ [exEntry 998])"
    using root not_both [OF root, of "{}"] by (simp add: Let_def upto_999)
  also have "batchEvents {} est 1 0 1 (map exEntry [0..<998] @ [exEntry 998]) =
      map (\<lambda>v. Upserted (v_path v)) (map exEntry [0..<998]) @ batchEvents {} est 999 998 1 [exEntry 998]"
    by (simp only: batchEvents_append f1 f2 f3 first) simp
  finally show ?thesis
    by (simp only: lst) (simp add: comp_def exEntry_def)
qed

lemma dirs_fold:
  "dirs (fold (stepOK tbe F hash est) vs s) =
     dirs s + of_nat (length (filter isFolderVisit vs))"
  by (induction vs arbitrary: s) (simp_all add: dirs_stepOK)

lemma events_scan:
  "events (snd (scanAndPersist tbe fs st noFaults root F hash est)) =
     [Begun, Prepared, Prepared] @ batchEvents F est 0 0 0 (WalkDir (Clean root) fs)
     @ [Committed,
        Progress (of_nat (length (filter (isFileVisit F) (WalkDir (Clean root) fs))))
                 (of_nat (length (filter isFolderVisit (WalkDir (Clean root) fs)))) [] est]"
proof -
  have b: "batch (startScan st) = int (0 mod 1000)"
    by simp
  show ?thesis
    using events_fold [OF b, of tbe F hash est "WalkDir (Clean root) fs"]
    by (simp add: scanAndPersist_ok files_fold dirs_fold)
qed

lemma exBig_counts:
  "length (filter (isFileVisit {}) (Visit ''/'' True False (Some exInfo) None # map exEntry [0..<n])) = n"
  "length (filter isFolderVisit (Visit ''/'' True False (Some exInfo) None # map exEntry [0..<n])) = 1"
  "length (filter (\<lambda>v. \<not> v_walkErr v \<and> \<not> v_isDir v \<and> passesFilter {} (v_path v))
      (Visit ''/'' True False (Some exInfo) None # map exEntry [0..<n])) = n"
  by (simp_all add: filter_map comp_def exEntry_file isFileVisit_def isFolderVisit_def
        passesFilter_def exEntry_def)

lemma exBig_estimate: "estimateFileCount (Some (exBig 999)) ''/'' {} = 999"
proof -
  have w: "WalkDir ''/'' (Some (exBig 999)) =
      Visit ''/'' True False (Some exInfo) None # map exEntry [0..<999]"
    using walk_exBig [of 999] by (simp add: Clean_root)
  show ?thesis
    unfolding estimateFileCount_def estimate_fold w exBig_counts(3) by simp
qed

lemma exBig_scan_events:
  "events (snd (scanAndPersist tbe (Some (exBig 999)) st noFaults ''/'' {} hash est)) =
     [Begun, Prepared, Prepared]
     @ Upserted ''/'' # map (\<lambda>i. Upserted (Join ''/'' (exName i))) [0..<998]
     @ [Upserted (Join ''/'' (exName 998)), Committed, Progress 999 1 (Join ''/'' (exName 998)) est,
        Begun, Prepared, Prepared, Committed, Progress 999 1 [] est]"
  by (simp only: events_scan walk_exBig exBig_events exBig_counts) simp

lemma progressPoints_upserted:
  "progressPoints n (map (\<lambda>i. Upserted (g i)) xs @ es) = progressPoints (n + length xs) es"
  by (induction xs arbitrary: n) simp_all

lemma exPath_nonempty: "Join ''/'' (exName 998) \<noteq> []"
  by (simp add: Join_def Clean_nonempty)

text \<open>
  C4. In a run without storage faults the events are: the first transaction and its two
  statements; then for each entry that is written its upsert, followed, exactly when the
  count of upserts (folders and files together) reaches a multiple of 1000, by the commit,
  the progress signal carrying the file count, the folder count, the path just processed
  and the estimator's total, and the new transaction with its two freshly prepared
  statements; at the end the last commit and the final progress signal.
\<close>

theorem batching_rule:
  "fst (runScan tbe fs st noFaults root F hash) = Some (DoneMsg None)
   \<and> events (snd (runScan tbe fs st noFaults root F hash)) =
       [Begun, Prepared, Prepared]
       @ batchEvents F (estimateFileCount fs root F) 0 0 0 (WalkDir (Clean root) fs)
       @ [Committed,
          Progress (files (snd (runScan tbe fs st noFaults root F hash)))
                   (dirs (snd (runScan tbe fs st noFaults root F hash))) []
                   (estimateFileCount fs root F)]"
proof -
  have b: "batch (startScan st) = int (0 mod 1000)"
    by simp
  show ?thesis
    using events_fold [OF b, of tbe F hash "estimateFileCount fs root F" "WalkDir (Clean root) fs"]
    by (simp add: runScan_ok)
qed

theorem batching_rule_witness:
  "events (snd (runScan (\<lambda>e. []) (Some (exBig 999)) emptyStore noFaults ''/'' {} False)) =
     [Begun, Prepared, Prepared]
     @ Upserted ''/'' # map (\<lambda>i. Upserted (Join ''/'' (exName i))) [0..<998]
     @ [Upserted (Join ''/'' (exName 998)), Committed, Progress 999 1 (Join ''/'' (exName 998)) 999,
        Begun, Prepared, Prepared, Committed, Progress 999 1 [] 999]"
proof -
  let ?R = "runScan (\<lambda>e. []) (Some (exBig 999)) emptyStore noFaults ''/'' {} False"
  have f: "files (snd ?R) = 999"
    by (simp only: files_run walk_exBig exBig_counts) simp
  have d: "dirs (snd ?R) = 1"
    by (simp only: runScan_ok snd_conv finishScan_simps dirs_fold walk_exBig exBig_counts
          startScan_simps) simp
  from batching_rule [of "\<lambda>e. []" "Some (exBig 999)" emptyStore "''/''" "{}" False]
  show ?thesis
    by (simp only: f d exBig_estimate walk_exBig exBig_events) simp
qed

subsection \<open>Estimator and engine\<close>

text \<open>
  C6, as stated, fails: the estimator counts an entry whose metadata cannot be read, the
  engine skips it. Here the tree is a directory with one such file.
\<close>

theorem estimator_agreement_counterexample:
  "estimateFileCount (Some exUnreadable) ''/r'' {} = 1
   \<and> files (snd (runScan (\<lambda>e. []) (Some exUnreadable) emptyStore noFaults ''/r'' {} False)) = 0"
  by code_simp

text \<open>
  C6, amended. When the root is given in clean form, every entry that is not a directory
  and comes without error has readable metadata, and no storage operation fails, the run
  ends without error and the file count of its final progress signal is the integer the
  estimator returned.
\<close>

theorem estimator_agreement:
  assumes "Clean root = root"
    and "\<forall>v \<in> set (WalkDir root fs). \<not> v_walkErr v \<and> \<not> v_isDir v \<longrightarrow> v_info v \<noteq> None"
  shows "fst (runScan tbe fs st noFaults root F hash) = Some (DoneMsg None)
     \<and> files (snd (runScan tbe fs st noFaults root F hash)) = estimateFileCount fs root F
     \<and> last (events (snd (runScan tbe fs st noFaults root F hash))) =
         Progress (estimateFileCount fs root F)
           (dirs (snd (runScan tbe fs st noFaults root F hash))) [] (estimateFileCount fs root F)"
proof -
  have "filter (isFileVisit F) (WalkDir root fs) =
        filter (\<lambda>v. \<not> v_walkErr v \<and> \<not> v_isDir v \<and> passesFilter F (v_path v)) (WalkDir root fs)"
    using assms(2) by (intro filter_cong) (auto simp: isFileVisit_def)
  then have eq: "files (snd (runScan tbe fs st noFaults root F hash)) = estimateFileCount fs root F"
    by (simp add: files_run assms(1) estimateFileCount_def estimate_fold)
  show ?thesis
    using eq by (simp add: runScan_ok)
qed

theorem estimator_agreement_witness:
  "files (snd (runScan (\<lambda>e. []) (Some exTree) emptyStore noFaults ''/r'' {''.pdf''} False)) =
     estimateFileCount (Some exTree) ''/r'' {''.pdf''}
   \<and> estimateFileCount (Some exTree) ''/r'' {''.pdf''} = 1"
proof -
  have h1: "Clean ''/r'' = ''/r''"
    by code_simp
  have h2: "\<forall>v \<in> set (WalkDir ''/r'' (Some exTree)). \<not> v_walkErr v \<and> \<not> v_isDir v \<longrightarrow> v_info v \<noteq> None"
    by code_simp
  have h3: "estimateFileCount (Some exTree) ''/r'' {''.pdf''} = 1"
    by code_simp
  from estimator_agreement [OF h1 h2] h3 show ?thesis
    by blast
qed

subsection \<open>The tables after a run\<close>

lemma t_files_applyVisit:
  "t_files (applyVisit tbe F hash v st) =
     (if isFileVisit F v
      then (t_files st)(v_path v \<mapsto>
             (case t_files st (v_path v) of
                None \<Rightarrow> fileRowOf tbe hash v
              | Some old \<Rightarrow> old\<lparr>f_size := f_size (fileRowOf tbe hash v),
                    f_mtime_utc := f_mtime_utc (fileRowOf tbe hash v),
                    f_mime := f_mime (fileRowOf tbe hash v),
                    f_sha256 := coalesce (f_sha256 (fileRowOf tbe hash v)) (f_sha256 old)\<rparr>))
      else t_files st)"
  by (auto simp: applyVisit_def visitWrite_def not_both upsertFile_def upsertFolder_def
        fileRowOf_def split: option.splits)

lemma t_folders_applyVisit:
  "t_folders (applyVisit tbe F hash v st) =
     (if isFolderVisit v
      then (t_folders st)(v_path v \<mapsto>
             (case t_folders st (v_path v) of
                None \<Rightarrow> folderRowOf v
              | Some old \<Rightarrow> old\<lparr>d_mtime_utc := d_mtime_utc (folderRowOf v)\<rparr>))
      else t_folders st)"
  by (auto simp: applyVisit_def visitWrite_def upsertFile_def upsertFolder_def
        folderRowOf_def split: option.splits)

lemma extsKept_applyVisit: "extsKept st \<Longrightarrow> extsKept (applyVisit tbe F hash v st)"
  by (auto simp: extsKept_def t_files_applyVisit fileRowOf_def split: option.splits)

lemma parentsKept_applyVisit: "parentsKept st \<Longrightarrow> parentsKept (applyVisit tbe F hash v st)"
  by (auto simp: parentsKept_def t_folders_applyVisit folderRowOf_def split: option.splits)

lemma dom_files_applyVisit:
  "dom (t_files (applyVisit tbe F hash v st)) =
     dom (t_files st) \<union> (if isFileVisit F v then {v_path v} else {})"
  by (auto simp: t_files_applyVisit)

lemma dom_folders_applyVisit:
  "dom (t_folders (applyVisit tbe F hash v st)) =
     dom (t_folders st) \<union> (if isFolderVisit v then {v_path v} else {})"
  by (auto simp: t_folders_applyVisit)

lemma extsKept_catalog: "extsKept st \<Longrightarrow> extsKept (catalog tbe F hash vs st)"
  unfolding catalog_def by (induction vs arbitrary: st) (simp_all add: extsKept_applyVisit)

lemma parentsKept_catalog: "parentsKept st \<Longrightarrow> parentsKept (catalog tbe F hash vs st)"
  unfolding catalog_def by (induction vs arbitrary: st) (simp_all add: parentsKept_applyVisit)

lemma dom_files_catalog:
  "dom (t_files (catalog tbe F hash vs st)) =
     dom (t_files st) \<union> v_path ` {v \<in> set vs. isFileVisit F v}"
  unfolding catalog_def
  by (induction vs arbitrary: st) (auto simp: dom_files_applyVisit)

lemma dom_folders_catalog:
  "dom (t_folders (catalog tbe F hash vs st)) =
     dom (t_folders st) \<union> v_path ` {v \<in> set vs. isFolderVisit v}"
  unfolding catalog_def
  by (induction vs arbitrary: st) (auto simp: dom_folders_applyVisit)

lemma catalogedExts_dom:
  "extsKept st \<Longrightarrow> catalogedExts st = (\<lambda>p. toLower (Ext p)) ` dom (t_files st)"
  unfolding catalogedExts_def extsKept_def ran_def dom_def
  by (auto simp: image_iff) force

lemma emptyStore_kept: "extsKept emptyStore" "parentsKept emptyStore"
  by (simp_all add: extsKept_def parentsKept_def emptyStore_def)

lemma catalogedExts_catalog:
  "catalogedExts (catalog tbe F hash vs emptyStore) =
     (if F = {} then presentExts vs else presentExts vs \<inter> F)"
proof -
  have "catalogedExts (catalog tbe F hash vs emptyStore) =
        (\<lambda>p. toLower (Ext p)) ` v_path ` {v \<in> set vs. isFileVisit F v}"
    by (simp add: catalogedExts_dom extsKept_catalog emptyStore_kept dom_files_catalog)
       (simp add: emptyStore_def)
  also have "\<dots> = (if F = {} then presentExts vs else presentExts vs \<inter> F)"
    by (auto simp: presentExts_def isFileVisit_def passesFilter_def image_iff)
  finally show ?thesis .
qed

lemma folder_row_catalog:
  assumes "v \<in> set vs" and "isFolderVisit v"
  shows "\<exists>r. t_folders (catalog tbe F hash vs emptyStore) (v_path v) = Some r
             \<and> d_parent_path r = folderParent (v_path v)"
proof -
  have "v_path v \<in> dom (t_folders (catalog tbe F hash vs emptyStore))"
    using assms by (auto simp: dom_folders_catalog)
  then obtain r where r: "t_folders (catalog tbe F hash vs emptyStore) (v_path v) = Some r"
    by auto
  moreover have "parentsKept (catalog tbe F hash vs emptyStore)"
    by (simp add: parentsKept_catalog emptyStore_kept)
  ultimately show ?thesis by (auto simp: parentsKept_def)
qed

lemma root_visit:
  "Visit (Clean root) True False (Some i) None \<in> set (WalkDir (Clean root) (Some (Directory (Some i) ok ents)))"
  by (simp add: WalkDir_def)

text \<open>
  C5, as stated, fails: with the filter \<open>{.pdf}\<close> and a tree that holds only a text file,
  nothing is cataloged, so the set of cataloged extensions is not the filter.
\<close>

theorem filter_correctness_counterexample:
  "catalogedExts (db (snd (runScan (\<lambda>e. []) (Some exTxtOnly) emptyStore noFaults ''/r'' {''.pdf''} False)))
     \<noteq> {''.pdf''}"
proof -
  have "presentExts (WalkDir (Clean ''/r'') (Some exTxtOnly)) \<inter> {''.pdf''} \<noteq> {''.pdf''}"
    by code_simp
  then show ?thesis
    by (simp only: db_run catalogedExts_catalog) simp
qed

text \<open>
  C5, amended. After a run without storage faults into an empty store, the set of cataloged
  extensions is the set of the lowercased extensions of the entries of the tree that are
  not directories and whose metadata can be read, when the filter is empty; when it is not
  empty, it is that set restricted to the filter.
\<close>

theorem filter_correctness:
  "catalogedExts (db (snd (runScan tbe fs emptyStore noFaults root F hash))) =
     (if F = {} then presentExts (WalkDir (Clean root) fs)
      else presentExts (WalkDir (Clean root) fs) \<inter> F)"
  by (simp only: db_run catalogedExts_catalog)

text \<open>
  C3, as stated, fails: for the root \<open>/tmp/x\<close> the parent recorded for the root itself is
  \<open>/tmp\<close>, not the empty string.
\<close>

theorem folder_parent_rule_counterexample:
  "map_option d_parent_path
     (t_folders (db (snd (runScan (\<lambda>e. []) (Some exTree) emptyStore noFaults ''/tmp/x'' {} False)))
        ''/tmp/x'') = Some ''/tmp''"
  by code_simp

text \<open>
  C3, amended. After a run without storage faults into an empty store, every directory that
  was upserted has as its parent path the \<open>Dir\<close> of its path, except that the parent is the
  empty string when the path is \<open>/\<close> or the dot, and only then. So the parent of the crawl
  root is the empty string exactly when the cleaned root is the root of the file system
  or the dot.
\<close>

theorem folder_parent_rule:
  "(\<forall>v \<in> set (WalkDir (Clean root) fs). isFolderVisit v \<longrightarrow>
      (\<exists>r. t_folders (db (snd (runScan tbe fs emptyStore noFaults root F hash))) (v_path v) = Some r
          \<and> d_parent_path r = (if v_path v = ''/'' \<or> v_path v = ''.'' then [] else Dir (v_path v))
          \<and> (d_parent_path r = [] \<longleftrightarrow> v_path v = ''/'' \<or> v_path v = ''.'')))
   \<and> (\<forall>i ok ents. fs = Some (Directory (Some i) ok ents) \<longrightarrow>
      (\<exists>r. t_folders (db (snd (runScan tbe fs emptyStore noFaults root F hash))) (Clean root) = Some r
          \<and> d_parent_path r = (if Clean root = ''/'' \<or> Clean root = ''.'' then [] else Dir (Clean root))
          \<and> (d_parent_path r = [] \<longleftrightarrow> Clean root = ''/'' \<or> Clean root = ''.'')))"
proof -
  have A: "\<exists>r. t_folders (db (snd (runScan tbe fs emptyStore noFaults root F hash))) (v_path v) = Some r
          \<and> d_parent_path r = (if v_path v = ''/'' \<or> v_path v = ''.'' then [] else Dir (v_path v))
          \<and> (d_parent_path r = [] \<longleftrightarrow> v_path v = ''/'' \<or> v_path v = ''.'')"
    if "v \<in> set (WalkDir (Clean root) fs)" "isFolderVisit v" for v
    using folder_row_catalog [OF that, of tbe F hash] Dir_nonempty [of "v_path v"]
    by (auto simp: db_run folderParent_eq)
  have B: "\<exists>r. t_folders (db (snd (runScan tbe fs emptyStore noFaults root F hash))) (Clean root) = Some r
          \<and> d_parent_path r = (if Clean root = ''/'' \<or> Clean root = ''.'' then [] else Dir (Clean root))
          \<and> (d_parent_path r = [] \<longleftrightarrow> Clean root = ''/'' \<or> Clean root = ''.'')"
    if "fs = Some (Directory (Some i) ok ents)" for i ok ents
  proof -
    have "isFolderVisit (Visit (Clean root) True False (Some i) None)"
      by (simp add: isFolderVisit_def)
    from A [OF root_visit [of root i ok ents, folded that] this] show ?thesis
      by (simp only: visit.sel)
  qed
  from A B show ?thesis by blast
qed

theorem folder_parent_rule_witness:
  "map_option d_parent_path
     (t_folders (db (snd (runScan (\<lambda>e. []) (Some exTree) emptyStore noFaults ''/'' {} False)))
        ''/'') = Some []
   \<and> map_option d_parent_path
     (t_folders (db (snd (runScan (\<lambda>e. []) (Some exTree) emptyStore noFaults ''/tmp/x'' {} False)))
        ''/tmp/x'') = Some (Dir ''/tmp/x'')"
proof -
  have c1: "Clean ''/'' = ''/''" by code_simp
  have c2: "Clean ''/tmp/x'' = ''/tmp/x''" by code_simp
  have t: "Some exTree = Some (Directory (Some exInfo) True
     [(''file1.txt'', File (Some exInfo) (Some (ReadAll []))),
      (''file2.pdf'', File (Some exInfo) (Some (ReadAll []))),
      (''subdir'', Directory (Some exInfo) True
         [(''file3.docx'', File (Some exInfo) (Some (ReadAll [])))])])"
    by (simp add: exTree_def)
  from folder_parent_rule [of "''/''" "Some exTree" "\<lambda>e. []" "{}" False] t c1
  have a: "map_option d_parent_path
     (t_folders (db (snd (runScan (\<lambda>e. []) (Some exTree) emptyStore noFaults ''/'' {} False)))
        ''/'') = Some []"
    by auto
  from folder_parent_rule [of "''/tmp/x''" "Some exTree" "\<lambda>e. []" "{}" False] t c2
  have b: "map_option d_parent_path
     (t_folders (db (snd (runScan (\<lambda>e. []) (Some exTree) emptyStore noFaults ''/tmp/x'' {} False)))
        ''/tmp/x'') = Some (Dir ''/tmp/x'')"
    by auto
  from a b show ?thesis by simp
qed

subsection \<open>Runs with storage faults\<close>

lemma commits_simps [simp]:
  "commits [] = 0"
  "commits (es @ es') = commits es + commits es'"
  "commits (Committed # es) = Suc (commits es)"
  "commits (Upserted k # es) = commits es"
  "commits (Progress f d p t # es) = commits es"
  "commits (Begun # es) = commits es"
  "commits (Prepared # es) = commits es"
  "commits (RolledBack # es) = commits es"
  by (simp_all add: commits_def)

lemma firstFault_tl: "headFault l = None \<Longrightarrow> firstFault (tl l) = firstFault l"
  by (cases l) (simp_all add: firstFault_def headFault_def)

lemma firstFault_head: "headFault l = Some e \<Longrightarrow> firstFault l = Some e"
  by (cases l) (auto simp: firstFault_def headFault_def)

lemma firstFault_None: "firstFault l = None \<Longrightarrow> headFault l = None"
  using firstFault_head [of l] by (cases "headFault l") simp_all

lemma batchStep_flat:
  "batchStep p est s =
     (if batch s + 1 < 1000 then (None, s\<lparr>batch := batch s + 1\<rparr>)
      else case headFault (fl_commit (flt s)) of
        Some e \<Rightarrow> (Some e, s\<lparr>batch := batch s + 1, tx := TxDone,
                          flt := (flt s)\<lparr>fl_commit := tl (fl_commit (flt s))\<rparr>\<rparr>)
      | None \<Rightarrow>
         (case headFault (fl_begin (flt s)) of
            Some e \<Rightarrow> (Some e, s\<lparr>batch := batch s + 1, tx := TxNil, db := txStore s,
                 events := events s @ [Committed, Progress (files s) (dirs s) p est],
                 flt := (flt s)\<lparr>fl_commit := tl (fl_commit (flt s)),
                                fl_begin := tl (fl_begin (flt s))\<rparr>\<rparr>)
          | None \<Rightarrow>
             (case headFault (fl_prepare (flt s)) of
                Some e \<Rightarrow> (Some e, s\<lparr>batch := batch s + 1, tx := TxOpen, db := txStore s,
                     events := events s @ [Committed, Progress (files s) (dirs s) p est, Begun],
                     flt := (flt s)\<lparr>fl_commit := tl (fl_commit (flt s)),
                                    fl_begin := tl (fl_begin (flt s)),
                                    fl_prepare := tl (fl_prepare (flt s))\<rparr>\<rparr>)
              | None \<Rightarrow>
                 (case headFault (tl (fl_prepare (flt s))) of
                    Some e \<Rightarrow> (Some e, s\<lparr>batch := batch s + 1, tx := TxOpen, db := txStore s,
                         events := events s @ [Committed, Progress (files s) (dirs s) p est,
                                               Begun, Prepared],
                         flt := (flt s)\<lparr>fl_commit := tl (fl_commit (flt s)),
                                        fl_begin := tl (fl_begin (flt s)),
                                        fl_prepare := tl (tl (fl_prepare (flt s)))\<rparr>\<rparr>)
                  | None \<Rightarrow> (None, s\<lparr>batch := 0, tx := TxOpen, db := txStore s,
                         events := events s @ [Committed, Progress (files s) (dirs s) p est,
                                               Begun, Prepared, Prepared],
                         flt := (flt s)\<lparr>fl_commit := tl (fl_commit (flt s)),
                                        fl_begin := tl (fl_begin (flt s)),
                                        fl_prepare := tl (tl (fl_prepare (flt s)))\<rparr>\<rparr>)))))"
  by (simp add: batchStep_def Let_def andThen_def txCommit_def dbBegin_def txPrepare_def
        split: option.splits)

lemma walkFn_flat:
  "walkFn tbe F hash est v s =
     (case visitWrite tbe F hash v of
        None \<Rightarrow> (None, s)
      | Some w \<Rightarrow>
         (case headFault (fl_exec (flt s)) of
            Some e \<Rightarrow>
              (Some e, s\<lparr>files := (if v_isDir v then files s else files s + 1),
                         dirs := (if v_isDir v then dirs s + 1 else dirs s),
                         flt := (flt s)\<lparr>fl_exec := tl (fl_exec (flt s))\<rparr>\<rparr>)
          | None \<Rightarrow>
              batchStep (v_path v) est
                (s\<lparr>files := (if v_isDir v then files s else files s + 1),
                   dirs := (if v_isDir v then dirs s + 1 else dirs s),
                   flt := (flt s)\<lparr>fl_exec := tl (fl_exec (flt s))\<rparr>,
                   txStore := w (txStore s),
                   events := events s @ [Upserted (v_path v)]\<rparr>)))"
  by (cases "v_info v")
     (auto simp: walkFn_def visitWrite_def isFolderVisit_def isFileVisit_def
        passesFilter_def folderRowOf_def fileRowOf_def Let_def andThen_def stmtExec_def
        split: option.splits)

lemma walkFn_None:
  assumes "walkFn tbe F hash est v s = (None, s')" and "walkInv s"
  shows "walkInv s' \<and> txStore s' = applyVisit tbe F hash v (txStore s)
     \<and> firstFault (fl_exec (flt s')) = firstFault (fl_exec (flt s))
     \<and> firstFault (fl_commit (flt s')) = firstFault (fl_commit (flt s))
     \<and> firstFault (fl_prepare (flt s')) = firstFault (fl_prepare (flt s))
     \<and> (if visitWrite tbe F hash v = None
         then batch s' = batch s \<and> db s' = db s \<and> commits (events s') = commits (events s)
         else if batch s + 1 < 1000
         then batch s' = batch s + 1 \<and> db s' = db s \<and> commits (events s') = commits (events s)
         else batch s' = 0 \<and> db s' = txStore s'
            \<and> commits (events s') = Suc (commits (events s)))"
proof -
  have hb: "headFault (fl_begin (flt s)) = None"
    using assms(2) by (simp add: walkInv_def firstFault_None)
  show ?thesis
    using assms hb
    by (auto simp: walkFn_flat batchStep_flat walkInv_def firstFault_tl applyVisit_def
          split: option.splits if_splits)
qed

lemma walkFn_Some:
  assumes "walkFn tbe F hash est v s = (Some e, s')" and "walkInv s"
  shows "tx s' \<noteq> TxNil \<and> visitWrite tbe F hash v \<noteq> None
     \<and> (firstFault (fl_exec (flt s)) = Some e \<or> firstFault (fl_commit (flt s)) = Some e
          \<or> firstFault (fl_prepare (flt s)) = Some e)
     \<and> (db s' = db s \<and> commits (events s') = commits (events s)
        \<or> batch s + 1 = 1000 \<and> db s' = applyVisit tbe F hash v (txStore s)
           \<and> commits (events s') = Suc (commits (events s)))"
proof -
  have hb: "headFault (fl_begin (flt s)) = None"
    using assms(2) by (simp add: walkInv_def firstFault_None)
  have second: "firstFault (fl_prepare (flt s)) = Some e"
    if "headFault (fl_prepare (flt s)) = None" "headFault (tl (fl_prepare (flt s))) = Some e"
    using that firstFault_tl [of "fl_prepare (flt s)"] firstFault_head [of "tl (fl_prepare (flt s))" e]
    by simp
  show ?thesis
    using assms hb second
    by (auto simp: walkFn_flat batchStep_flat walkInv_def applyVisit_def
          dest: firstFault_head split: option.splits if_splits)
qed

lemma walkFn_events:
  assumes "walkFn tbe F hash est v s = (r, s')"
  shows "\<exists>es. events s' = events s @ es \<and> upserts es \<le> 1
     \<and> (progressPoints n es = []
         \<or> upserts es = 1 \<and> batch s + 1 \<ge> 1000 \<and> progressPoints n es = [(Suc n, v_path v)])
     \<and> (r = None \<longrightarrow>
          batch s' = (if upserts es = 0 then batch s
                      else if batch s + 1 \<ge> 1000 then 0 else batch s + 1))"
  using assms
  by (auto simp: walkFn_flat batchStep_flat split: option.splits if_splits)

lemma catalogFirst_skip:
  "visitWrite tbe F hash v = None \<Longrightarrow>
   catalogFirst tbe F hash m (v # vs) st = catalogFirst tbe F hash m vs st"
  by (cases m) simp_all

lemma catalogFirst_write:
  "visitWrite tbe F hash v = Some w \<Longrightarrow>
   catalogFirst tbe F hash (Suc m) (v # vs) st = catalogFirst tbe F hash m vs (w st)"
  by simp

lemma applyVisit_write:
  "visitWrite tbe F hash v = Some w \<Longrightarrow> applyVisit tbe F hash v st = w st"
  by (simp add: applyVisit_def)

lemma applyVisit_skip:
  "visitWrite tbe F hash v = None \<Longrightarrow> applyVisit tbe F hash v st = st"
  by (simp add: applyVisit_def)

lemma walkVisits_faulty:
  assumes "walkVisits (walkFn tbe F hash est) vs s = (r, s')" and "walkInv s"
  shows "(r = None \<longrightarrow> walkInv s' \<and> txStore s' = catalog tbe F hash vs (txStore s)
            \<and> firstFault (fl_exec (flt s')) = firstFault (fl_exec (flt s))
            \<and> firstFault (fl_commit (flt s')) = firstFault (fl_commit (flt s))
            \<and> firstFault (fl_prepare (flt s')) = firstFault (fl_prepare (flt s)))
     \<and> (\<forall>e. r = Some e \<longrightarrow> tx s' \<noteq> TxNil
            \<and> (firstFault (fl_exec (flt s)) = Some e \<or> firstFault (fl_commit (flt s)) = Some e
                \<or> firstFault (fl_prepare (flt s)) = Some e))
     \<and> (\<exists>K. commits (events s') = commits (events s) + K
            \<and> db s' = (if K = 0 then db s
                        else catalogFirst tbe F hash (1000 * K - nat (batch s)) vs (txStore s)))"
  using assms
proof (induction vs arbitrary: s)
  case Nil
  then show ?case by (auto simp: catalog_def)
next
  case (Cons v vs)
  obtain r1 s1 where step: "walkFn tbe F hash est v s = (r1, s1)"
    by (cases "walkFn tbe F hash est v s")
  have b: "0 \<le> batch s" "batch s < 1000"
    using Cons.prems(2) by (simp_all add: walkInv_def)
  show ?case
  proof (cases r1)
    case (Some e)
    with step Cons.prems(1) have rs: "r = Some e" "s' = s1" by simp_all
    from walkFn_Some [OF step [unfolded Some] Cons.prems(2)]
    obtain w where w: "visitWrite tbe F hash v = Some w"
      and tx: "tx s1 \<noteq> TxNil"
      and ff: "firstFault (fl_exec (flt s)) = Some e \<or> firstFault (fl_commit (flt s)) = Some e
          \<or> firstFault (fl_prepare (flt s)) = Some e"
      and d: "db s1 = db s \<and> commits (events s1) = commits (events s)
        \<or> batch s + 1 = 1000 \<and> db s1 = applyVisit tbe F hash v (txStore s)
           \<and> commits (events s1) = Suc (commits (events s))"
      by auto
    from d have "\<exists>K. commits (events s1) = commits (events s) + K
            \<and> db s1 = (if K = 0 then db s
                else catalogFirst tbe F hash (1000 * K - nat (batch s)) (v # vs) (txStore s))"
    proof
      assume "db s1 = db s \<and> commits (events s1) = commits (events s)"
      then show ?thesis by (intro exI [of _ 0]) simp
    next
      assume a: "batch s + 1 = 1000 \<and> db s1 = applyVisit tbe F hash v (txStore s)
           \<and> commits (events s1) = Suc (commits (events s))"
      then have "nat (batch s) = 999" by simp
      then have "1000 * 1 - nat (batch s) = Suc 0" by simp
      with a w show ?thesis
        by (intro exI [of _ 1]) (simp add: applyVisit_write)
    qed
    with rs tx ff show ?thesis by simp
  next
    case None
    with step Cons.prems(1) have rest: "walkVisits (walkFn tbe F hash est) vs s1 = (r, s')"
      by simp
    note st = walkFn_None [OF step [unfolded None] Cons.prems(2)]
    from st have inv1: "walkInv s1" by simp
    note IH = Cons.IH [OF rest inv1]
    from IH obtain K where K: "commits (events s') = commits (events s1) + K"
      and dbK: "db s' = (if K = 0 then db s1
                 else catalogFirst tbe F hash (1000 * K - nat (batch s1)) vs (txStore s1))"
      by auto
    have tx1: "txStore s1 = applyVisit tbe F hash v (txStore s)" using st by simp
    have part1: "r = None \<longrightarrow> walkInv s' \<and> txStore s' = catalog tbe F hash (v # vs) (txStore s)
            \<and> firstFault (fl_exec (flt s')) = firstFault (fl_exec (flt s))
            \<and> firstFault (fl_commit (flt s')) = firstFault (fl_commit (flt s))
            \<and> firstFault (fl_prepare (flt s')) = firstFault (fl_prepare (flt s))"
      using IH st by (simp add: catalog_def)
    have part2: "\<forall>e. r = Some e \<longrightarrow> tx s' \<noteq> TxNil
            \<and> (firstFault (fl_exec (flt s)) = Some e \<or> firstFault (fl_commit (flt s)) = Some e
                \<or> firstFault (fl_prepare (flt s)) = Some e)"
      using IH st by simp
    have part3: "\<exists>K. commits (events s') = commits (events s) + K
            \<and> db s' = (if K = 0 then db s
                else catalogFirst tbe F hash (1000 * K - nat (batch s)) (v # vs) (txStore s))"
    proof (cases "visitWrite tbe F hash v")
      case None
      then have "batch s1 = batch s" "db s1 = db s" "commits (events s1) = commits (events s)"
        "txStore s1 = txStore s"
        using st by (simp_all add: applyVisit_skip)
      with K dbK None show ?thesis
        by (intro exI [of _ K]) (simp add: catalogFirst_skip)
    next
      case (Some w)
      show ?thesis
      proof (cases "batch s + 1 < 1000")
        case True
        with Some st have s1: "batch s1 = batch s + 1" "db s1 = db s"
          "commits (events s1) = commits (events s)" "txStore s1 = w (txStore s)"
          by (simp_all add: applyVisit_write)
        show ?thesis
        proof (cases "K = 0")
          case True
          with K dbK s1 show ?thesis by (intro exI [of _ 0]) simp
        next
          case False
          have "1000 * K - nat (batch s) = Suc (1000 * K - nat (batch s1))"
            using False b s1(1) \<open>batch s + 1 < 1000\<close> by (cases K) (simp_all add: nat_add_distrib)
          with K dbK s1 False Some show ?thesis
            by (intro exI [of _ K]) simp
        qed
      next
        case False
        with b have b999: "nat (batch s) = 999" by simp
        from False Some st have s1: "batch s1 = 0" "db s1 = w (txStore s)"
          "commits (events s1) = Suc (commits (events s))" "txStore s1 = w (txStore s)"
          by (simp_all add: applyVisit_write)
        have "1000 * Suc K - nat (batch s) = Suc (1000 * K)"
          using b999 by simp
        with K dbK s1 Some show ?thesis
          by (intro exI [of _ "Suc K"]) (cases "K = 0"; simp)
      qed
    qed
    from part1 part2 part3 show ?thesis by blast
  qed
qed

lemma setup_ok:
  assumes "onlyWritesFail fl"
  shows "\<exists>s1. andThen (dbBegin (initScan st fl)) (\<lambda>s. andThen (txPrepare s) txPrepare) = (None, s1)
     \<and> walkInv s1 \<and> batch s1 = 0 \<and> db s1 = st \<and> txStore s1 = st
     \<and> events s1 = [Begun, Prepared, Prepared]
     \<and> firstFault (fl_exec (flt s1)) = firstFault (fl_exec fl)
     \<and> firstFault (fl_commit (flt s1)) = firstFault (fl_commit fl)
     \<and> firstFault (fl_prepare (flt s1)) = None"
proof -
  have hb: "headFault (fl_begin fl) = None" and hbt: "firstFault (tl (fl_begin fl)) = None"
    using assms firstFault_None [of "fl_begin fl"] firstFault_tl [of "fl_begin fl"]
    by (simp_all add: onlyWritesFail_def)
  have hp: "headFault (fl_prepare fl) = None" and hpt: "firstFault (tl (fl_prepare fl)) = None"
    using assms firstFault_None [of "fl_prepare fl"] firstFault_tl [of "fl_prepare fl"]
    by (simp_all add: onlyWritesFail_def)
  have hp2: "headFault (tl (fl_prepare fl)) = None"
    and hpt2: "firstFault (tl (tl (fl_prepare fl))) = None"
    using hpt firstFault_None [of "tl (fl_prepare fl)"] firstFault_tl [of "tl (fl_prepare fl)"]
    by simp_all
  show ?thesis
    using hb hbt hp hp2 hpt2
    by (simp add: andThen_def dbBegin_def txPrepare_def initScan_def walkInv_def Let_def)
qed

lemma txCommit_flat:
  "txCommit s =
     (case headFault (fl_commit (flt s)) of
        Some e \<Rightarrow> (Some e, s\<lparr>flt := (flt s)\<lparr>fl_commit := tl (fl_commit (flt s))\<rparr>, tx := TxDone\<rparr>)
      | None \<Rightarrow> (None, s\<lparr>flt := (flt s)\<lparr>fl_commit := tl (fl_commit (flt s))\<rparr>, tx := TxDone,
                      db := txStore s, events := events s @ [Committed]\<rparr>))"
  by (simp add: txCommit_def Let_def)

lemma scanAndPersist_faulty:
  assumes "onlyWritesFail fl"
  shows "\<exists>err. fst (scanAndPersist tbe fs st fl root F hash est) = Returned err
     \<and> (err = None \<longrightarrow>
           db (snd (scanAndPersist tbe fs st fl root F hash est)) =
             catalog tbe F hash (WalkDir (Clean root) fs) st)
     \<and> (\<forall>e. err = Some e \<longrightarrow>
           (firstFault (fl_exec fl) = Some e \<or> firstFault (fl_commit fl) = Some e)
           \<and> tx (snd (scanAndPersist tbe fs st fl root F hash est)) = TxDone
           \<and> db (snd (scanAndPersist tbe fs st fl root F hash est)) =
               catalogFirst tbe F hash
                 (1000 * commits (events (snd (scanAndPersist tbe fs st fl root F hash est))))
                 (WalkDir (Clean root) fs) st)"
proof -
  let ?vs = "WalkDir (Clean root) fs"
  from setup_ok [OF assms, of st] obtain s1 where
    pre: "andThen (dbBegin (initScan st fl)) (\<lambda>s. andThen (txPrepare s) txPrepare) = (None, s1)"
    and inv1: "walkInv s1" and s1: "batch s1 = 0" "db s1 = st" "txStore s1 = st"
      "events s1 = [Begun, Prepared, Prepared]"
    and ff1: "firstFault (fl_exec (flt s1)) = firstFault (fl_exec fl)"
      "firstFault (fl_commit (flt s1)) = firstFault (fl_commit fl)"
      "firstFault (fl_prepare (flt s1)) = None"
    by blast
  obtain r s2 where walk: "walkVisits (walkFn tbe F hash est) ?vs s1 = (r, s2)"
    by (cases "walkVisits (walkFn tbe F hash est) ?vs s1")
  note W = walkVisits_faulty [OF walk inv1]
  from W obtain K where K: "commits (events s2) = K"
    and dbK: "db s2 = catalogFirst tbe F hash (1000 * K) ?vs st"
    using s1 by (auto split: if_splits)
  have nofl: "fl_open fl = None" "fl_schema fl = None" "fl_pragma fl = None"
    using assms by (simp_all add: onlyWritesFail_def)
  have run: "scanAndPersist tbe fs st fl root F hash est =
      (case r of
         Some e \<Rightarrow> (if tx s2 = TxNil then (Panicked, s2) else (Returned (Some e), txRollback s2))
       | None \<Rightarrow>
          (case txCommit s2 of
             (Some e, s) \<Rightarrow> (Returned (Some e), s)
           | (None, s) \<Rightarrow>
               (Returned None,
                s\<lparr>events := events s @ [Progress (files s) (dirs s) [] est]\<rparr>)))"
    by (simp add: scanAndPersist_def Let_def nofl pre walk split: option.splits)
  show ?thesis
  proof (cases r)
    case (Some e)
    with W have tx: "tx s2 \<noteq> TxNil"
      and ff: "firstFault (fl_exec fl) = Some e \<or> firstFault (fl_commit fl) = Some e"
      using ff1 by auto
    have "tx (txRollback s2) = TxDone"
      using tx by (cases "tx s2") (simp_all add: txRollback_def)
    moreover have "db (txRollback s2) = db s2" "commits (events (txRollback s2)) = K"
      using K by (simp_all add: txRollback_def)
    ultimately show ?thesis
      using Some tx ff dbK by (simp add: run)
  next
    case None
    with W have cat: "txStore s2 = catalog tbe F hash ?vs st"
      and ffc: "firstFault (fl_commit (flt s2)) = firstFault (fl_commit fl)"
      using s1 ff1 by simp_all
    show ?thesis
    proof (cases "headFault (fl_commit (flt s2))")
      case hn: None
      then show ?thesis
        using None cat by (simp add: run txCommit_flat)
    next
      case (Some e)
      then have "firstFault (fl_commit fl) = Some e"
        using ffc firstFault_head by metis
      then show ?thesis
        using None Some K dbK by (simp add: run txCommit_flat)
    qed
  qed
qed

text \<open>A run whose statement number 1001 fails, after the first batch was committed.\<close>

lemma walkVisits_append:
  "walkVisits fn (vs @ ws) s =
     (case walkVisits fn vs s of (Some e, s') \<Rightarrow> (Some e, s') | (None, s') \<Rightarrow> walkVisits fn ws s')"
  by (induction vs arbitrary: s) (auto split: prod.splits option.splits)

lemma walkFn_quiet:
  assumes "isFolderVisit v \<or> isFileVisit F v"
  shows "walkFn tbe F hash est v (t\<lparr>flt := noFaults\<lparr>fl_exec := None # plan\<rparr>\<rparr>) =
     (None, (stepOK tbe F hash est v t)\<lparr>flt := noFaults\<lparr>fl_exec := plan\<rparr>\<rparr>)"
  using assms
  by (auto simp: walkFn_flat batchStep_flat stepOK_def visitWrite_def noFaults_def headFault_def
        Let_def not_both isFolderVisit_def isFileVisit_def split: option.splits)

lemma walkVisits_quiet:
  assumes "\<forall>v \<in> set vs. isFolderVisit v \<or> isFileVisit F v"
  shows "walkVisits (walkFn tbe F hash est) vs
            (t\<lparr>flt := noFaults\<lparr>fl_exec := replicate (length vs) None @ plan\<rparr>\<rparr>) =
     (None, (fold (stepOK tbe F hash est) vs t)\<lparr>flt := noFaults\<lparr>fl_exec := plan\<rparr>\<rparr>)"
  using assms
  by (induction vs arbitrary: t) (simp_all add: walkFn_quiet)

lemma walkFn_exec_fails:
  assumes "isFolderVisit v \<or> isFileVisit F v"
  shows "fst (walkFn tbe F hash est v (t\<lparr>flt := noFaults\<lparr>fl_exec := Some e # plan\<rparr>\<rparr>)) = Some e
     \<and> events (snd (walkFn tbe F hash est v (t\<lparr>flt := noFaults\<lparr>fl_exec := Some e # plan\<rparr>\<rparr>))) = events t
     \<and> tx (snd (walkFn tbe F hash est v (t\<lparr>flt := noFaults\<lparr>fl_exec := Some e # plan\<rparr>\<rparr>))) = tx t"
  using assms
  by (auto simp: walkFn_flat visitWrite_def headFault_def split: option.splits)

lemma tx_fold:
  "tx t = TxOpen \<Longrightarrow> tx (fold (stepOK tbe F hash est) vs t) = TxOpen"
  by (induction vs arbitrary: t) (auto simp: stepOK_def Let_def split: option.splits)

lemma upto_1000: "[0..<1000] = [0..<999] @ [999]"
  using upt_Suc_append [of 0 999] by simp

lemma exLate_scan:
  "fst (scanAndPersist tbe (Some (exBig 1000)) st exLateFault ''/'' {} hash est)
     = Returned (Some (Error ''disk full''))
   \<and> commits (events (snd (scanAndPersist tbe (Some (exBig 1000)) st exLateFault ''/'' {} hash est))) = 1"
proof -
  let ?root = "Visit ''/'' True False (Some exInfo) None"
  let ?A = "?root # map exEntry [0..<999]"
  let ?fn = "walkFn tbe {} hash est"
  let ?e = "Error ''disk full''"
  let ?t = "fold (stepOK tbe {} hash est) ?A (startScan st)"
  have pre: "andThen (dbBegin (initScan st exLateFault)) (\<lambda>s. andThen (txPrepare s) txPrepare) =
      (None, (startScan st)\<lparr>flt := noFaults\<lparr>fl_exec := replicate (length ?A) None @ [Some ?e]\<rparr>\<rparr>)"
    by (simp add: andThen_def dbBegin_def txPrepare_def initScan_def startScan_def exLateFault_def
          noFaults_def headFault_def Let_def)
  have nofl: "fl_open exLateFault = None" "fl_schema exLateFault = None" "fl_pragma exLateFault = None"
    by (simp_all add: exLateFault_def noFaults_def)
  have ups: "\<forall>v \<in> set ?A. isFolderVisit v \<or> isFileVisit {} v"
    by (auto simp: exEntry_file isFolderVisit_def)
  have vs: "WalkDir (Clean ''/'') (Some (exBig 1000)) = ?A @ [exEntry 999]"
    by (simp only: walk_exBig upto_1000) simp
  have quiet: "walkVisits ?fn ?A
      ((startScan st)\<lparr>flt := noFaults\<lparr>fl_exec := replicate (length ?A) None @ [Some ?e]\<rparr>\<rparr>) =
      (None, ?t\<lparr>flt := noFaults\<lparr>fl_exec := [Some ?e]\<rparr>\<rparr>)"
    by (rule walkVisits_quiet [OF ups])
  have last: "fst (?fn (exEntry 999) (?t\<lparr>flt := noFaults\<lparr>fl_exec := [Some ?e]\<rparr>\<rparr>)) = Some ?e
     \<and> events (snd (?fn (exEntry 999) (?t\<lparr>flt := noFaults\<lparr>fl_exec := [Some ?e]\<rparr>\<rparr>))) = events ?t
     \<and> tx (snd (?fn (exEntry 999) (?t\<lparr>flt := noFaults\<lparr>fl_exec := [Some ?e]\<rparr>\<rparr>))) = tx ?t"
    by (rule walkFn_exec_fails) (simp add: exEntry_file)
  obtain s2 where s2: "?fn (exEntry 999) (?t\<lparr>flt := noFaults\<lparr>fl_exec := [Some ?e]\<rparr>\<rparr>) = (Some ?e, s2)"
    and ev2: "events s2 = events ?t" and tx2: "tx s2 = tx ?t"
    using last by (cases "?fn (exEntry 999) (?t\<lparr>flt := noFaults\<lparr>fl_exec := [Some ?e]\<rparr>\<rparr>)") auto
  have walk: "walkVisits ?fn (WalkDir (Clean ''/'') (Some (exBig 1000)))
      ((startScan st)\<lparr>flt := noFaults\<lparr>fl_exec := replicate (length ?A) None @ [Some ?e]\<rparr>\<rparr>) =
      (Some ?e, s2)"
  proof -
    let ?S = "(startScan st)\<lparr>flt := noFaults\<lparr>fl_exec := replicate (length ?A) None @ [Some ?e]\<rparr>\<rparr>"
    have "walkVisits ?fn (?A @ [exEntry 999]) ?S =
        (case walkVisits ?fn ?A ?S of (Some e, s') \<Rightarrow> (Some e, s')
         | (None, s') \<Rightarrow> walkVisits ?fn [exEntry 999] s')"
      by (rule walkVisits_append)
    also have "\<dots> = walkVisits ?fn [exEntry 999] (?t\<lparr>flt := noFaults\<lparr>fl_exec := [Some ?e]\<rparr>\<rparr>)"
      by (simp only: quiet prod.case option.case)
    also have "\<dots> = (Some ?e, s2)"
      by (simp only: walkVisits.simps s2 prod.case option.case)
    finally show ?thesis by (simp only: vs)
  qed
  have "tx (startScan st) = TxOpen"
    by (simp add: startScan_def)
  then have "tx ?t = TxOpen"
    by (rule tx_fold)
  then have txo: "tx s2 = TxOpen"
    by (simp only: tx2)
  have b: "batch (startScan st) = int (0 mod 1000)" by simp
  have "events ?t = [Begun, Prepared, Prepared] @ batchEvents {} est 0 0 0 ?A"
    using events_fold [OF b, of tbe "{}" hash est ?A] by simp
  then have c: "commits (events s2) = 1"
    using progressPoints_upserted [of 0 "\<lambda>i. Join ''/'' (exName i)" "[0..<998]" "[]"]
    by (simp only: ev2 exBig_events) (simp add: commits_def)
  have run: "scanAndPersist tbe (Some (exBig 1000)) st exLateFault ''/'' {} hash est =
      (Returned (Some ?e), txRollback s2)"
    using txo walk by (simp add: scanAndPersist_def Let_def nofl pre)
  show ?thesis
    using c txo by (simp add: run txRollback_def)
qed

lemma exLate_run:
  "fst (runScan tbe (Some (exBig 1000)) st exLateFault ''/'' {} hash)
     = Some (DoneMsg (Some (Error ''disk full'')))
   \<and> commits (events (snd (runScan tbe (Some (exBig 1000)) st exLateFault ''/'' {} hash))) = 1"
proof -
  let ?est = "estimateFileCount (Some (exBig 1000)) ''/'' {}"
  obtain s where sp: "scanAndPersist tbe (Some (exBig 1000)) st exLateFault ''/'' {} hash ?est =
      (Returned (Some (Error ''disk full'')), s)"
    using exLate_scan [of tbe st hash ?est]
    by (cases "scanAndPersist tbe (Some (exBig 1000)) st exLateFault ''/'' {} hash ?est") simp
  with exLate_scan [of tbe st hash ?est] show ?thesis
    by (simp add: runScan_def Let_def)
qed

lemma faultAt_head_None:
  "headFault l = None \<Longrightarrow> faultAt l = map_option (\<lambda>(i, e). (Suc i, e)) (faultAt (tl l))"
  by (cases l) (simp_all add: headFault_def)

lemma faultAt_head_Some: "headFault l = Some e \<Longrightarrow> faultAt l = Some (0, e)"
  by (cases l) (simp_all add: headFault_def)

lemma small_div: "b < 1000 \<Longrightarrow> (b::nat) div 1000 = 0"
  by simp

lemma failureFrom_end: "b < 1000 \<Longrightarrow> failureFrom b pe pc 0 = headFault pc"
proof (cases pc)
  case Nil
  then show ?thesis by (simp add: failureFrom_def headFault_def split: option.splits)
next
  case (Cons x xs)
  assume b: "b < 1000"
  show ?thesis
  proof (cases x)
    case None
    then show ?thesis using Cons b
      by (cases "faultAt xs"; cases "faultAt pe")
         (auto simp: failureFrom_def headFault_def)
  next
    case (Some c)
    then show ?thesis using Cons b
      by (cases "faultAt pe") (auto simp: failureFrom_def headFault_def)
  qed
qed

lemma failureFrom_exec:
  "headFault pe = Some e \<Longrightarrow> b < 1000 \<Longrightarrow> failureFrom b pe pc (Suc m) = Some e"
  by (cases "faultAt pc") (auto simp: failureFrom_def faultAt_head_Some)

lemma failureFrom_commit_fails:
  assumes "headFault pe = None" "headFault pc = Some c"
  shows "failureFrom 999 pe pc (Suc m) = Some c"
  using assms
  by (cases "faultAt (tl pe)")
     (auto simp: failureFrom_def faultAt_head_Some faultAt_head_None)

lemma failureFrom_step:
  assumes "headFault pe = None"
  shows "failureFrom b pe pc (Suc m) = failureFrom (Suc b) (tl pe) pc m"
  using assms
  by (cases "faultAt (tl pe)"; cases "faultAt pc")
     (auto simp: failureFrom_def faultAt_head_None)

lemma div_shift: "(1000 + m) div 1000 = Suc (m div (1000::nat))"
  by simp

lemma failureFrom_commit:
  assumes "headFault pe = None" "headFault pc = None"
  shows "failureFrom 999 pe pc (Suc m) = failureFrom 0 (tl pe) (tl pc) m"
proof -
  have e: "faultAt pe = map_option (\<lambda>(i, e). (Suc i, e)) (faultAt (tl pe))"
    using assms(1) by (rule faultAt_head_None)
  have c: "faultAt pc = map_option (\<lambda>(i, e). (Suc i, e)) (faultAt (tl pc))"
    using assms(2) by (rule faultAt_head_None)
  show ?thesis
    unfolding failureFrom_def e c
    by (cases "faultAt (tl pe)"; cases "faultAt (tl pc)")
       (auto simp: div_shift)
qed


lemma writes_simps [simp]:
  "writes F [] = 0"
  "visitWrite tbe F hash v = None \<Longrightarrow> writes F (v # vs) = writes F vs"
  "visitWrite tbe F hash v = Some w \<Longrightarrow> writes F (v # vs) = Suc (writes F vs)"
  by (auto simp: writes_def visitWrite_def split: if_splits)

lemma walk_failure:
  assumes "walkInv s" and "firstFault (fl_prepare (flt s)) = None"
  shows "fst (case walkVisits (walkFn tbe F hash est) vs s of
                (Some e, s') \<Rightarrow> (Some e, s') | (None, s') \<Rightarrow> txCommit s')
         = failureFrom (nat (batch s)) (fl_exec (flt s)) (fl_commit (flt s)) (writes F vs)"
  using assms
proof (induction vs arbitrary: s)
  case Nil
  then have "nat (batch s) < 1000" by (simp add: walkInv_def nat_less_iff)
  then show ?case
    by (simp add: failureFrom_end txCommit_flat split: option.splits)
next
  case (Cons v vs)
  let ?fn = "walkFn tbe F hash est"
  have b: "0 \<le> batch s" "batch s < 1000" and txo: "tx s = TxOpen"
    and fb: "firstFault (fl_begin (flt s)) = None"
    using Cons.prems(1) by (simp_all add: walkInv_def)
  have hb: "headFault (fl_begin (flt s)) = None"
    and fbt: "firstFault (tl (fl_begin (flt s))) = None"
    using fb firstFault_None [of "fl_begin (flt s)"] firstFault_tl [of "fl_begin (flt s)"]
    by simp_all
  have hp: "headFault (fl_prepare (flt s)) = None"
    and fpt: "firstFault (tl (fl_prepare (flt s))) = None"
    using Cons.prems(2) firstFault_None [of "fl_prepare (flt s)"]
      firstFault_tl [of "fl_prepare (flt s)"]
    by simp_all
  have hp2: "headFault (tl (fl_prepare (flt s))) = None"
    and fpt2: "firstFault (tl (tl (fl_prepare (flt s)))) = None"
    using fpt firstFault_None [of "tl (fl_prepare (flt s))"]
      firstFault_tl [of "tl (fl_prepare (flt s))"]
    by simp_all
  show ?case
  proof (cases "visitWrite tbe F hash v")
    case None
    then have "?fn v s = (None, s)" by (simp add: walkFn_flat)
    then show ?thesis
      using Cons.IH [OF Cons.prems] None by simp
  next
    case (Some w)
    note wr = writes_simps(3) [OF Some, of vs]
    show ?thesis
    proof (cases "headFault (fl_exec (flt s))")
      case e: (Some e)
      have "fst (?fn v s) = Some e"
        by (simp add: walkFn_flat Some e)
      then have "fst (case walkVisits ?fn (v # vs) s of
                (Some e, s') \<Rightarrow> (Some e, s') | (None, s') \<Rightarrow> txCommit s') = Some e"
        by (cases "?fn v s") simp
      moreover have "failureFrom (nat (batch s)) (fl_exec (flt s)) (fl_commit (flt s))
          (Suc (writes F vs)) = Some e"
        using e b by (intro failureFrom_exec) simp_all
      ultimately show ?thesis by (simp only: wr)
    next
      case ne: None
      show ?thesis
      proof (cases "batch s + 1 < 1000")
        case True
        let ?s1 = "s\<lparr>files := (if v_isDir v then files s else files s + 1),
                   dirs := (if v_isDir v then dirs s + 1 else dirs s),
                   flt := (flt s)\<lparr>fl_exec := tl (fl_exec (flt s))\<rparr>,
                   txStore := w (txStore s),
                   events := events s @ [Upserted (v_path v)],
                   batch := batch s + 1\<rparr>"
        have step: "?fn v s = (None, ?s1)"
          using True by (simp add: walkFn_flat Some ne batchStep_flat)
        have inv: "walkInv ?s1" "firstFault (fl_prepare (flt ?s1)) = None"
          using True b txo fb Cons.prems(2) by (simp_all add: walkInv_def)
        have nb: "nat (batch ?s1) = Suc (nat (batch s))"
          using b by (simp add: nat_add_distrib)
        have "fst (case walkVisits ?fn (v # vs) s of
                (Some e, s') \<Rightarrow> (Some e, s') | (None, s') \<Rightarrow> txCommit s')
            = failureFrom (nat (batch ?s1)) (fl_exec (flt ?s1)) (fl_commit (flt ?s1)) (writes F vs)"
          using Cons.IH [OF inv] by (simp add: step)
        also have "\<dots> = failureFrom (Suc (nat (batch s))) (tl (fl_exec (flt s)))
            (fl_commit (flt s)) (writes F vs)"
          by (simp only: nb) simp
        also have "\<dots> = failureFrom (nat (batch s)) (fl_exec (flt s)) (fl_commit (flt s))
            (Suc (writes F vs))"
          by (rule failureFrom_step [OF ne, symmetric])
        finally show ?thesis by (simp only: wr)
      next
        case False
        with b have b999: "nat (batch s) = 999" by simp
        show ?thesis
        proof (cases "headFault (fl_commit (flt s))")
          case c: (Some c)
          have "fst (?fn v s) = Some c"
            using False by (simp add: walkFn_flat Some ne batchStep_flat c)
          then have "fst (case walkVisits ?fn (v # vs) s of
                (Some e, s') \<Rightarrow> (Some e, s') | (None, s') \<Rightarrow> txCommit s') = Some c"
            by (cases "?fn v s") simp
          moreover have "failureFrom 999 (fl_exec (flt s)) (fl_commit (flt s))
              (Suc (writes F vs)) = Some c"
            by (rule failureFrom_commit_fails [OF ne c])
          ultimately show ?thesis by (simp only: wr b999)
        next
          case nc: None
          let ?s1 = "s\<lparr>files := (if v_isDir v then files s else files s + 1),
                   dirs := (if v_isDir v then dirs s + 1 else dirs s),
                   txStore := w (txStore s),
                   batch := 0, tx := TxOpen, db := w (txStore s),
                   events := events s @ [Upserted (v_path v), Committed,
                       Progress (if v_isDir v then files s else files s + 1)
                         (if v_isDir v then dirs s + 1 else dirs s) (v_path v) est,
                       Begun, Prepared, Prepared],
                   flt := (flt s)\<lparr>fl_exec := tl (fl_exec (flt s)),
                                  fl_commit := tl (fl_commit (flt s)),
                                  fl_begin := tl (fl_begin (flt s)),
                                  fl_prepare := tl (tl (fl_prepare (flt s)))\<rparr>\<rparr>"
          have step: "?fn v s = (None, ?s1)"
            using False by (simp add: walkFn_flat Some ne batchStep_flat nc hb hp hp2)
          have inv: "walkInv ?s1" "firstFault (fl_prepare (flt ?s1)) = None"
            using fbt fpt2 by (simp_all add: walkInv_def)
          have "fst (case walkVisits ?fn (v # vs) s of
                (Some e, s') \<Rightarrow> (Some e, s') | (None, s') \<Rightarrow> txCommit s')
              = failureFrom (nat (batch ?s1)) (fl_exec (flt ?s1)) (fl_commit (flt ?s1)) (writes F vs)"
            using Cons.IH [OF inv] by (simp add: step)
          also have "\<dots> = failureFrom 0 (tl (fl_exec (flt s))) (tl (fl_commit (flt s))) (writes F vs)"
            by simp
          also have "\<dots> = failureFrom 999 (fl_exec (flt s)) (fl_commit (flt s)) (Suc (writes F vs))"
            by (rule failureFrom_commit [OF ne nc, symmetric])
          finally show ?thesis by (simp only: wr b999)
        qed
      qed
    qed
  qed
qed

lemma setup_plans:
  assumes "onlyWritesFail fl"
  shows "\<exists>s1. andThen (dbBegin (initScan st fl)) (\<lambda>s. andThen (txPrepare s) txPrepare) = (None, s1)
     \<and> walkInv s1 \<and> batch s1 = 0 \<and> firstFault (fl_prepare (flt s1)) = None
     \<and> fl_exec (flt s1) = fl_exec fl \<and> fl_commit (flt s1) = fl_commit fl"
proof -
  have hb: "headFault (fl_begin fl) = None" and hbt: "firstFault (tl (fl_begin fl)) = None"
    using assms firstFault_None [of "fl_begin fl"] firstFault_tl [of "fl_begin fl"]
    by (simp_all add: onlyWritesFail_def)
  have hp: "headFault (fl_prepare fl) = None" and hpt: "firstFault (tl (fl_prepare fl)) = None"
    using assms firstFault_None [of "fl_prepare fl"] firstFault_tl [of "fl_prepare fl"]
    by (simp_all add: onlyWritesFail_def)
  have hp2: "headFault (tl (fl_prepare fl)) = None"
    and hpt2: "firstFault (tl (tl (fl_prepare fl))) = None"
    using hpt firstFault_None [of "tl (fl_prepare fl)"] firstFault_tl [of "tl (fl_prepare fl)"]
    by simp_all
  show ?thesis
    using hb hbt hp hp2 hpt2
    by (simp add: andThen_def dbBegin_def txPrepare_def initScan_def walkInv_def Let_def)
qed

lemma scanAndPersist_failure:
  assumes "onlyWritesFail fl"
  shows "fst (scanAndPersist tbe fs st fl root F hash est) =
     Returned (writeFailure fl (writes F (WalkDir (Clean root) fs)))"
proof -
  let ?vs = "WalkDir (Clean root) fs"
  from setup_plans [OF assms, of st] obtain s1 where
    pre: "andThen (dbBegin (initScan st fl)) (\<lambda>s. andThen (txPrepare s) txPrepare) = (None, s1)"
    and inv1: "walkInv s1" and s1: "batch s1 = 0"
    and ff1: "firstFault (fl_prepare (flt s1)) = None"
    and pl: "fl_exec (flt s1) = fl_exec fl" "fl_commit (flt s1) = fl_commit fl"
    by blast
  obtain r s2 where walk: "walkVisits (walkFn tbe F hash est) ?vs s1 = (r, s2)"
    by (cases "walkVisits (walkFn tbe F hash est) ?vs s1")
  note F = walk_failure [OF inv1 ff1, of tbe F hash est ?vs, unfolded walk s1 pl]
  have nofl: "fl_open fl = None" "fl_schema fl = None" "fl_pragma fl = None"
    using assms by (simp_all add: onlyWritesFail_def)
  have run: "scanAndPersist tbe fs st fl root F hash est =
      (case r of
         Some e \<Rightarrow> (if tx s2 = TxNil then (Panicked, s2) else (Returned (Some e), txRollback s2))
       | None \<Rightarrow>
          (case txCommit s2 of
             (Some e, s) \<Rightarrow> (Returned (Some e), s)
           | (None, s) \<Rightarrow>
               (Returned None,
                s\<lparr>events := events s @ [Progress (files s) (dirs s) [] est]\<rparr>)))"
    by (simp add: scanAndPersist_def Let_def nofl pre walk split: option.splits)
  from scanAndPersist_faulty [OF assms, of tbe fs st root F hash est]
  obtain err where ret: "fst (scanAndPersist tbe fs st fl root F hash est) = Returned err"
    by blast
  show ?thesis
  proof (cases r)
    case (Some e)
    with F have "writeFailure fl (writes F ?vs) = Some e"
      by (simp add: writeFailure_def)
    moreover have "err = Some e"
      using ret Some by (simp add: run split: if_splits)
    ultimately show ?thesis using ret by simp
  next
    case None
    with F have "fst (txCommit s2) = writeFailure fl (writes F ?vs)"
      by (simp add: writeFailure_def)
    then show ?thesis
      using None by (cases "txCommit s2") (auto simp: run split: option.splits)
  qed
qed

lemma writes_exBig: "writes {} (WalkDir (Clean ''/'') (Some (exBig n))) = Suc n"
  by (simp add: walk_exBig writes_def isFolderVisit_def exEntry_file)

lemma faultAt_replicate: "faultAt (replicate n None @ Some e # fs) = Some (n, e)"
  by (induction n) simp_all

text \<open>
  C7. When the only operations that fail are writes (executions of the upsert statements
  and commits), the run always ends with one \<^verbatim>\<open>doneMsg\<close>, and what it carries is decided by
  the plan: the error of the first write that fails among those the run reaches (the
  execution number \<open>i\<close> is reached when the walk asks for more than \<open>i\<close> upserts, the commit
  number \<open>j\<close> when it asks for at least \<open>1000 * j\<close>), and no error when the run reaches no
  failing write. When the message carries an error, that error is the first one a statement
  execution or a commit returned, no transaction is left open (the open one was rolled back,
  or ended by the commit that failed), and the store holds exactly the upserts of the batches
  committed before: the first \<open>1000 * k\<close> upserts of the walk, \<open>k\<close> the number of commits that
  succeeded.
\<close>

theorem batch_commit_error:
  assumes "onlyWritesFail fl"
  shows "fst (runScan tbe fs st fl root F hash) =
       Some (DoneMsg (writeFailure fl (writes F (WalkDir (Clean root) fs))))
     \<and> (\<forall>e. writeFailure fl (writes F (WalkDir (Clean root) fs)) = Some e \<longrightarrow>
           (firstFault (fl_exec fl) = Some e \<or> firstFault (fl_commit fl) = Some e)
           \<and> tx (snd (runScan tbe fs st fl root F hash)) = TxDone
           \<and> db (snd (runScan tbe fs st fl root F hash)) =
               catalogFirst tbe F hash
                 (1000 * commits (events (snd (runScan tbe fs st fl root F hash))))
                 (WalkDir (Clean root) fs) st)"
proof -
  let ?est = "estimateFileCount fs root F"
  let ?err = "writeFailure fl (writes F (WalkDir (Clean root) fs))"
  have e: "fst (scanAndPersist tbe fs st fl root F hash ?est) = Returned ?err"
    by (rule scanAndPersist_failure [OF assms])
  from scanAndPersist_faulty [OF assms, of tbe fs st root F hash ?est] e
  have rest: "\<forall>e. ?err = Some e \<longrightarrow>
           (firstFault (fl_exec fl) = Some e \<or> firstFault (fl_commit fl) = Some e)
           \<and> tx (snd (scanAndPersist tbe fs st fl root F hash ?est)) = TxDone
           \<and> db (snd (scanAndPersist tbe fs st fl root F hash ?est)) =
               catalogFirst tbe F hash
                 (1000 * commits (events (snd (scanAndPersist tbe fs st fl root F hash ?est))))
                 (WalkDir (Clean root) fs) st"
    by auto
  obtain s where sp: "scanAndPersist tbe fs st fl root F hash ?est = (Returned ?err, s)"
    using e by (cases "scanAndPersist tbe fs st fl root F hash ?est") simp
  have "runScan tbe fs st fl root F hash = (Some (DoneMsg ?err), s)"
    by (simp add: runScan_def Let_def sp)
  with rest sp show ?thesis by simp
qed

theorem batch_commit_error_witness:
  "fst (runScan (\<lambda>e. []) (Some (exBig 1000)) emptyStore exLateFault ''/'' {} False)
     = Some (DoneMsg (Some (Error ''disk full'')))
   \<and> tx (snd (runScan (\<lambda>e. []) (Some (exBig 1000)) emptyStore exLateFault ''/'' {} False)) = TxDone
   \<and> commits (events (snd (runScan (\<lambda>e. []) (Some (exBig 1000)) emptyStore exLateFault ''/'' {} False))) = 1
   \<and> db (snd (runScan (\<lambda>e. []) (Some (exBig 1000)) emptyStore exLateFault ''/'' {} False)) =
       catalogFirst (\<lambda>e. []) {} False 1000 (WalkDir (Clean ''/'') (Some (exBig 1000))) emptyStore
   \<and> fst (runScan (\<lambda>e. []) (Some exTree) emptyStore exDiskFull ''/r'' {} False)
     = Some (DoneMsg (Some (Error ''disk full'')))
   \<and> tx (snd (runScan (\<lambda>e. []) (Some exTree) emptyStore exDiskFull ''/r'' {} False)) = TxDone
   \<and> db (snd (runScan (\<lambda>e. []) (Some exTree) emptyStore exDiskFull ''/r'' {} False)) = emptyStore"
proof -
  let ?L = "runScan (\<lambda>e. []) (Some (exBig 1000)) emptyStore exLateFault ''/'' {} False"
  let ?R = "runScan (\<lambda>e. []) (Some exTree) emptyStore exDiskFull ''/r'' {} False"
  have hl: "onlyWritesFail exLateFault"
    by (simp add: onlyWritesFail_def exLateFault_def noFaults_def firstFault_def headFault_def)
  have wl: "writeFailure exLateFault (writes {} (WalkDir (Clean ''/'') (Some (exBig 1000))))
      = Some (Error ''disk full'')"
    using faultAt_replicate [of 1000 "Error ''disk full''" "[]"]
    by (simp add: writes_exBig writeFailure_def failureFrom_def exLateFault_def noFaults_def)
  have c: "commits (events (snd ?L)) = 1"
    using exLate_run [of "\<lambda>e. []" emptyStore False] by simp
  from batch_commit_error [OF hl, of "\<lambda>e. []" "Some (exBig 1000)" emptyStore "''/''" "{}" False]
  have late: "fst ?L = Some (DoneMsg (Some (Error ''disk full''))) \<and> tx (snd ?L) = TxDone
     \<and> db (snd ?L) =
       catalogFirst (\<lambda>e. []) {} False 1000 (WalkDir (Clean ''/'') (Some (exBig 1000))) emptyStore"
    unfolding wl c by simp
  have h: "onlyWritesFail exDiskFull"
    by code_simp
  have wr: "writeFailure exDiskFull (writes {} (WalkDir (Clean ''/r'') (Some exTree)))
      = Some (Error ''disk full'')"
    by code_simp
  have cr: "commits (events (snd ?R)) = 0"
    by code_simp
  from batch_commit_error [OF h, of "\<lambda>e. []" "Some exTree" emptyStore "''/r''" "{}" False]
  have early: "fst ?R = Some (DoneMsg (Some (Error ''disk full''))) \<and> tx (snd ?R) = TxDone
     \<and> db (snd ?R) = emptyStore"
    unfolding wr cr by simp
  from c late early show ?thesis by blast
qed

subsection \<open>Progress signals\<close>

lemma progressPoints_bound:
  "(k, p) \<in> set (progressPoints n es) \<Longrightarrow> n \<le> k \<and> k \<le> n + upserts es"
  by (induction n es rule: progressPoints.induct) (auto split: if_splits)

lemma atBatches_append:
  "atBatches n (es @ es') \<longleftrightarrow> atBatches n es \<and> atBatches (n + upserts es) es'"
  by (simp add: atBatches_def progressPoints_append)

lemma walkVisits_progress:
  assumes "walkVisits (walkFn tbe F hash est) vs s = (r, s')"
    and "batch s = int (n mod 1000)"
  shows "\<exists>es. events s' = events s @ es \<and> atBatches n es"
  using assms
proof (induction vs arbitrary: s n)
  case Nil
  then show ?case by (simp add: atBatches_def)
next
  case (Cons v vs)
  obtain r1 s1 where step: "walkFn tbe F hash est v s = (r1, s1)"
    by (cases "walkFn tbe F hash est v s")
  from walkFn_events [OF step, of n] obtain es1 where
    e1: "events s1 = events s @ es1" and u1: "upserts es1 \<le> 1"
    and p1: "progressPoints n es1 = []
         \<or> upserts es1 = 1 \<and> batch s + 1 \<ge> 1000 \<and> progressPoints n es1 = [(Suc n, v_path v)]"
    and b1: "r1 = None \<longrightarrow>
          batch s1 = (if upserts es1 = 0 then batch s
                      else if batch s + 1 \<ge> 1000 then 0 else batch s + 1)"
    by blast
  have a1: "atBatches n es1"
    using p1 Cons.prems(2) mod_1000_step [of n] by (auto simp: atBatches_def)
  show ?case
  proof (cases r1)
    case (Some e)
    with step Cons.prems(1) have "s' = s1" by simp
    with e1 a1 show ?thesis by blast
  next
    case None
    with step Cons.prems(1) have rest: "walkVisits (walkFn tbe F hash est) vs s1 = (r, s')"
      by simp
    have b: "batch s1 = int ((n + upserts es1) mod 1000)"
    proof (cases "upserts es1 = 0")
      case True
      with b1 None Cons.prems(2) show ?thesis by simp
    next
      case False
      with u1 have u: "upserts es1 = 1" by simp
      with b1 None have "batch s1 = (if batch s + 1 \<ge> 1000 then 0 else batch s + 1)" by simp
      then show ?thesis
        using Cons.prems(2) mod_1000_step [of n] mod_1000_next [of n] u by auto
    qed
    from Cons.IH [OF rest b] obtain es2 where
      "events s' = events s1 @ es2" "atBatches (n + upserts es1) es2"
      by blast
    with e1 a1 show ?thesis
      by (intro exI [of _ "es1 @ es2"]) (simp add: atBatches_append)
  qed
qed

lemma setup_events:
  assumes "andThen (dbBegin (initScan st fl)) (\<lambda>s. andThen (txPrepare s) txPrepare) = (r, s)"
  shows "upserts (events s) = 0 \<and> progressPoints n (events s) = [] \<and> (r = None \<longrightarrow> batch s = 0)"
  using assms
  by (auto simp: andThen_def dbBegin_def txPrepare_def initScan_def Let_def
        split: option.splits)

lemma scanAndPersist_shape:
  "\<exists>pre es post. events (snd (scanAndPersist tbe fs st fl root F hash est)) = pre @ es @ post
     \<and> upserts pre = 0 \<and> progressPoints 0 pre = [] \<and> atBatches 0 es \<and> upserts post = 0
     \<and> (if fst (scanAndPersist tbe fs st fl root F hash est) = Returned None
         then \<exists>f d. post = [Committed, Progress f d [] est]
         else progressPoints (upserts es) post = [])"
proof -
  let ?R = "scanAndPersist tbe fs st fl root F hash est"
  have shape: ?thesis
    if "events (snd ?R) = pre @ es @ post" "upserts pre = 0" "progressPoints 0 pre = []"
       "atBatches 0 es" "upserts post = 0"
       "if fst ?R = Returned None then \<exists>f d. post = [Committed, Progress f d [] est]
        else progressPoints (upserts es) post = []" for pre es post
    using that by blast
  have trivial: ?thesis
    if "events (snd ?R) = pre" "upserts pre = 0" "progressPoints 0 pre = []"
       "fst ?R \<noteq> Returned None" for pre
    using that by (intro shape [of pre "[]" "[]"]) (simp_all add: atBatches_def)
  show ?thesis
  proof (cases "fl_open fl \<noteq> None \<or> fl_schema fl \<noteq> None \<or> fl_pragma fl \<noteq> None")
    case True
    then have a: "events (snd ?R) = []" and b: "fst ?R \<noteq> Returned None"
      by (auto simp: scanAndPersist_def initScan_def Let_def)
    show ?thesis by (rule trivial [OF a _ _ b]) simp_all
  next
    case False
    obtain r0 s0 where pre: "andThen (dbBegin (initScan st fl)) (\<lambda>s. andThen (txPrepare s) txPrepare) = (r0, s0)"
      by (cases "andThen (dbBegin (initScan st fl)) (\<lambda>s. andThen (txPrepare s) txPrepare)")
    note se = setup_events [OF pre, of 0]
    show ?thesis
    proof (cases r0)
      case (Some e)
      then have R: "?R = (Returned (Some e), s0)"
        using False pre by (simp add: scanAndPersist_def Let_def)
      have a: "events (snd ?R) = events s0" and b: "fst ?R \<noteq> Returned None"
        by (simp_all add: R)
      show ?thesis by (rule trivial [OF a _ _ b]) (simp_all add: se)
    next
      case None
      obtain r s where walk: "walkVisits (walkFn tbe F hash est) (WalkDir (Clean root) fs) s0 = (r, s)"
        by (cases "walkVisits (walkFn tbe F hash est) (WalkDir (Clean root) fs) s0")
      have b0: "batch s0 = int (0 mod 1000)" using se None by simp
      from walkVisits_progress [OF walk b0] obtain es where
        es: "events s = events s0 @ es" "atBatches 0 es" by blast
      have run: "?R =
        (case r of
           Some e \<Rightarrow> (if tx s = TxNil then (Panicked, s) else (Returned (Some e), txRollback s))
         | None \<Rightarrow>
            (case txCommit s of
               (Some e, s') \<Rightarrow> (Returned (Some e), s')
             | (None, s') \<Rightarrow>
                 (Returned None,
                  s'\<lparr>events := events s' @ [Progress (files s') (dirs s') [] est]\<rparr>)))"
        using False None pre walk by (simp add: scanAndPersist_def Let_def split: option.splits)
      show ?thesis
      proof (cases r)
        case (Some e)
        then have nr: "fst ?R \<noteq> Returned None"
          and ev: "events (snd ?R) = events s0 @ es @ [] \<or> events (snd ?R) = events s0 @ es @ [RolledBack]"
          using es(1) by (auto simp: run txRollback_def)
        from ev show ?thesis
        proof
          assume "events (snd ?R) = events s0 @ es @ []"
          then show ?thesis by (rule shape) (simp_all add: se es(2) nr)
        next
          assume "events (snd ?R) = events s0 @ es @ [RolledBack]"
          then show ?thesis by (rule shape) (simp_all add: se es(2) nr)
        qed
      next
        case rn: None
        show ?thesis
        proof (cases "headFault (fl_commit (flt s))")
          case (Some e)
          then have nr: "fst ?R \<noteq> Returned None" and ev: "events (snd ?R) = events s0 @ es @ []"
            using rn es(1) by (simp_all add: run txCommit_flat)
          from ev show ?thesis by (rule shape) (simp_all add: se es(2) nr)
        next
          case None
          then have nr: "fst ?R = Returned None" and
            ev: "events (snd ?R) = events s0 @ es @ [Committed, Progress (files s) (dirs s) [] est]"
            using rn es(1) by (simp_all add: run txCommit_flat)
          from ev show ?thesis by (rule shape) (simp_all add: se es(2) nr)
        qed
      qed
    qed
  qed
qed

text \<open>
  C10. In every run, whatever fails, a progress signal with a non-empty last path comes only
  when the number of upserts so far is a positive multiple of 1000. So a run with fewer
  than 1000 upserts emits no progress signal during the walk: its signals are the single
  final one, with the empty last path, when the run ends without error, and none when it
  does not.
\<close>

theorem progress_emission:
  "(\<forall>kp \<in> set (progressPoints 0 (events (snd (scanAndPersist tbe fs st fl root F hash est)))).
      snd kp \<noteq> [] \<longrightarrow> 0 < fst kp \<and> fst kp mod 1000 = 0)
   \<and> (upserts (events (snd (scanAndPersist tbe fs st fl root F hash est))) < 1000 \<longrightarrow>
        map snd (progressPoints 0 (events (snd (scanAndPersist tbe fs st fl root F hash est)))) =
          (if fst (scanAndPersist tbe fs st fl root F hash est) = Returned None then [[]] else []))"
proof -
  let ?R = "scanAndPersist tbe fs st fl root F hash est"
  from scanAndPersist_shape [of tbe fs st fl root F hash est]
  obtain pre es post where ev: "events (snd ?R) = pre @ es @ post"
    and pre: "upserts pre = 0" "progressPoints 0 pre = []"
    and es: "atBatches 0 es" and post0: "upserts post = 0"
    and post: "if fst ?R = Returned None then \<exists>f d. post = [Committed, Progress f d [] est]
         else progressPoints (upserts es) post = []"
    by blast
  have pp: "progressPoints 0 (events (snd ?R)) = progressPoints 0 es @ progressPoints (upserts es) post"
    by (simp add: ev progressPoints_append pre)
  have walk: "0 < fst kp \<and> fst kp mod 1000 = 0" if "kp \<in> set (progressPoints 0 es)" for kp
    using es that by (simp add: atBatches_def list_all_iff)
  have last: "snd kp = []" if "kp \<in> set (progressPoints (upserts es) post)" for kp
    using post that by (auto split: if_splits)
  have first: "\<forall>kp \<in> set (progressPoints 0 (events (snd ?R))).
      snd kp \<noteq> [] \<longrightarrow> 0 < fst kp \<and> fst kp mod 1000 = 0"
    using walk last by (auto simp: pp)
  have second: "map snd (progressPoints 0 (events (snd ?R))) =
      (if fst ?R = Returned None then [[]] else [])"
    if small: "upserts (events (snd ?R)) < 1000"
  proof -
    have "progressPoints 0 es = []"
    proof (rule ccontr)
      assume "progressPoints 0 es \<noteq> []"
      then obtain kp where kp: "kp \<in> set (progressPoints 0 es)"
        by (cases "progressPoints 0 es") auto
      then have "fst kp \<le> upserts es"
        using progressPoints_bound [of "fst kp" "snd kp" 0 es] by simp
      moreover have "0 < fst kp" "fst kp mod 1000 = 0" using walk [OF kp] by simp_all
      then have "1000 \<le> fst kp" by (cases "fst kp < 1000") simp_all
      moreover have "upserts es < 1000" using small by (simp add: ev)
      ultimately show False by simp
    qed
    then show ?thesis using post by (auto simp: pp)
  qed
  from first second show ?thesis by blast
qed

theorem progress_emission_witness:
  "(1000, Join ''/'' (exName 998)) \<in> set (progressPoints 0
      (events (snd (scanAndPersist (\<lambda>e. []) (Some (exBig 999)) emptyStore noFaults ''/'' {} False 999))))
   \<and> Join ''/'' (exName 998) \<noteq> []
   \<and> (0::nat) < 1000 \<and> (1000::nat) mod 1000 = 0
   \<and> upserts (events (snd (scanAndPersist (\<lambda>e. []) (Some exTree) emptyStore noFaults ''/r'' {} False 3))) = 5
   \<and> map snd (progressPoints 0
        (events (snd (scanAndPersist (\<lambda>e. []) (Some exTree) emptyStore noFaults ''/r'' {} False 3))))
      = [[]]"
proof -
  let ?B = "scanAndPersist (\<lambda>e. []) (Some (exBig 999)) emptyStore noFaults ''/'' {} False 999"
  let ?R = "scanAndPersist (\<lambda>e. []) (Some exTree) emptyStore noFaults ''/r'' {} False 3"
  have "progressPoints 0 (events (snd ?B)) =
      [(1000, Join ''/'' (exName 998)), (1000, [])]"
    using progressPoints_upserted [of 1 "\<lambda>i. Join ''/'' (exName i)" "[0..<998]"]
    by (simp add: exBig_scan_events)
  then have mem: "(1000, Join ''/'' (exName 998)) \<in> set (progressPoints 0 (events (snd ?B)))"
    by simp
  from progress_emission [of "\<lambda>e. []" "Some (exBig 999)" emptyStore noFaults "''/''" "{}" False 999]
    mem exPath_nonempty
  have big: "(0::nat) < 1000 \<and> (1000::nat) mod 1000 = 0"
    by fastforce
  have u: "upserts (events (snd ?R)) = 5"
    by code_simp
  have r: "fst ?R = Returned None"
    by (simp add: scanAndPersist_ok)
  from progress_emission [of "\<lambda>e. []" "Some exTree" emptyStore noFaults "''/r''" "{}" False 3] u r
  have small: "map snd (progressPoints 0 (events (snd ?R))) = [[]]"
    by simp
  from mem exPath_nonempty big u small show ?thesis by blast
qed

end
